theory Spec2Isabelle
  imports Main "HOL-Library.Word" "HOL-Library.AList"
begin

unbundle bit_operations_syntax

section \<open>Ingestion: core/commands/add.go\<close>

subsection \<open>Data\<close>

type_synonym int64 = "64 word"

text \<open>\<^verbatim>\<open>const progressReaderIncrement = 1024 * 256\<close>\<close>

definition progressReaderIncrement :: int64 where
  "progressReaderIncrement = 1024 * 256"

text \<open>
  \<^verbatim>\<open>type AddedObject struct { Name string; Hash string; Bytes int64 }\<close>.
  A field left out of a struct literal holds Go's zero value: the empty string, or 0.
\<close>

record AddedObject =
  Name :: string
  Hash :: string
  Bytes :: int64

text \<open>
  The error a \<^verbatim>\<open>Read\<close> returns beside its byte count: \<^verbatim>\<open>nil\<close> is \<open>None\<close>,
  \<^verbatim>\<open>io.EOF\<close> is \<open>Some EOF\<close>, anything else carries its message.
\<close>

datatype io_error = EOF | ReadError string

type_synonym read_result = "nat \<times> io_error option"

text \<open>
  A \<^verbatim>\<open>files.File\<close>: a plain file is its name and the results its successive
  \<^verbatim>\<open>Read\<close> calls return; a directory is its name and the results its successive
  \<^verbatim>\<open>NextFile\<close> calls return. The end of the entry list is \<^verbatim>\<open>(nil, io.EOF)\<close>.
\<close>

datatype files_File =
    File string "read_result list"
  | Directory string "next_file list"
and next_file =
    NextFile files_File
  | NextErr string

fun FileName :: "files_File \<Rightarrow> string" where
  "FileName (File name rs) = name"
| "FileName (Directory name es) = name"

fun IsDirectory :: "files_File \<Rightarrow> bool" where
  "IsDirectory (File name rs) = False"
| "IsDirectory (Directory name es) = True"

text \<open>
  \<^verbatim>\<open>i.file.Read(p)\<close>: the next result of the underlying file and the file after it.
  A stream that has reported everything keeps answering \<^verbatim>\<open>(0, io.EOF)\<close>.
\<close>

fun file_Read :: "files_File \<Rightarrow> read_result \<times> files_File" where
  "file_Read (File name []) = ((0, Some EOF), File name [])"
| "file_Read (File name (r # rs)) = (r, File name rs)"
| "file_Read (Directory name es) =
     ((0, Some (ReadError ''this file is a directory, and cannot be read'')), Directory name es)"

text \<open>
  \<^verbatim>\<open>hiddenFileError\<close> and \<^verbatim>\<open>ignoreFileError\<close> are private types of the package; every
  error of a collaborator (files, importer, merkledag, pin) is an \<open>ExtError\<close>.
\<close>

datatype add_error =
    HiddenFileError string
  | IgnoreFileError string
  | ExtError string

fun isHiddenFileError :: "add_error \<Rightarrow> bool" where
  "isHiddenFileError (HiddenFileError name) = True"
| "isHiddenFileError (IgnoreFileError name) = False"
| "isHiddenFileError (ExtError msg) = False"

text \<open>\<^verbatim>\<open>dag.Node\<close>: its data and its named links.\<close>

datatype dag_node = Node (Data: string) (Links: "(string \<times> dag_node) list")

type_synonym key = string

text \<open>
  The node the command works on: the one \<^verbatim>\<open>GetNode\<close> returns, backed by the
  repository, or the one built by \<^verbatim>\<open>core.NewNodeBuilder().NilRepo().Build\<close>.
\<close>

datatype ipfs_node = RepoNode | NilRepoNode

datatype domain = DataBlocks | StateBlocks

datatype pin_mode = Recursive | Direct | Indirect

text \<open>The calls the command makes on its collaborators, in the order it makes them.\<close>

datatype event =
    PinLock ipfs_node domain
  | Unlock ipfs_node domain
  | Import ipfs_node bool string
  | Output AddedObject
  | DAG_Add ipfs_node dag_node
  | PinWithMode ipfs_node key pin_mode
  | Flush ipfs_node
  | CloseOut

text \<open>
  What the collaborators answer. None of them is part of the command's source:
  \<^item> \<open>IsHidden\<close>: \<^verbatim>\<open>files.IsHidden(file)\<close>;
  \<^item> \<open>BuildDagFromReader\<close>, \<open>BuildTrickleDagFromReader\<close>: the importer run on a node's DAG
    service over a file: how many \<^verbatim>\<open>Read\<close> calls it makes on its reader, and its result;
  \<^item> \<open>getOutput\<close>: the hash of \<^verbatim>\<open>getOutput(dn)\<close>, or its error;
  \<^item> \<open>FolderPBData\<close>: \<^verbatim>\<open>ft.FolderPBData()\<close>;
  \<^item> \<open>AddNodeLink\<close>: \<^verbatim>\<open>tree.AddNodeLink(name, node)\<close>, the tree after it or its error;
  \<^item> \<open>DAG_Add_err\<close>: the error of \<^verbatim>\<open>n.DAG.Add(tree)\<close>;
  \<^item> \<open>Key\<close>: \<^verbatim>\<open>rootnd.Key()\<close>;
  \<^item> \<open>Flush_err\<close>: the error of \<^verbatim>\<open>n.Pinning.Flush()\<close>;
  \<^item> \<open>GetNode_err\<close>: the error of \<^verbatim>\<open>req.InvocContext().GetNode()\<close>;
  \<^item> \<open>NilRepo_err\<close>: the error of building the node with \<^verbatim>\<open>NilRepo()\<close>.
\<close>

record env =
  IsHidden :: "files_File \<Rightarrow> bool"
  BuildDagFromReader :: "ipfs_node \<Rightarrow> files_File \<Rightarrow> nat \<times> (string + dag_node)"
  BuildTrickleDagFromReader :: "ipfs_node \<Rightarrow> files_File \<Rightarrow> nat \<times> (string + dag_node)"
  getOutput :: "dag_node \<Rightarrow> string + string"
  FolderPBData :: string
  AddNodeLink :: "dag_node \<Rightarrow> string \<Rightarrow> dag_node \<Rightarrow> string + dag_node"
  DAG_Add_err :: "ipfs_node \<Rightarrow> dag_node \<Rightarrow> string option"
  Key :: "dag_node \<Rightarrow> string + key"
  Flush_err :: "ipfs_node \<Rightarrow> string option"
  GetNode_err :: "string option"
  NilRepo_err :: "string option"

text \<open>\<^verbatim>\<open>type adder struct\<close>; its \<^verbatim>\<open>out\<close> channel is the \<open>Output\<close> events.\<close>

record adder =
  node :: ipfs_node
  progress :: bool
  hidden :: bool
  trickle :: bool

subsection \<open>The progress reader\<close>

record progressReader =
  pr_file :: files_File
  bytes :: int64
  lastProgress :: int64

text \<open>
  \<^verbatim>\<open>func (i *progressReader) Read(p []byte) (int, error)\<close>: the reader after the call,
  the records it sent on \<^verbatim>\<open>i.out\<close>, and what it returns. \<^verbatim>\<open>>=\<close> on \<^verbatim>\<open>int64\<close> is the
  signed comparison.
\<close>

definition progressReader_Read ::
  "progressReader \<Rightarrow> progressReader \<times> AddedObject list \<times> read_result" where
  "progressReader_Read i =
     (let ((n, err), f') = file_Read (pr_file i);
          i1 = i\<lparr>pr_file := f', bytes := bytes i + of_nat n\<rparr>
      in if progressReaderIncrement \<le>s bytes i1 - lastProgress i1 \<or> err = Some EOF
         then (i1\<lparr>lastProgress := bytes i1\<rparr>,
               [\<lparr>Name = FileName (pr_file i), Hash = [], Bytes = bytes i1\<rparr>],
               (n, err))
         else (i1, [], (n, err)))"

text \<open>The records sent by \<open>k\<close> successive \<^verbatim>\<open>Read\<close> calls.\<close>

fun read_n :: "nat \<Rightarrow> progressReader \<Rightarrow> AddedObject list" where
  "read_n 0 i = []"
| "read_n (Suc k) i =
     (case progressReader_Read i of (i', sent, r) \<Rightarrow> sent @ read_n k i')"

text \<open>
  \<^verbatim>\<open>&progressReader{file: file, out: params.out}\<close>: both counters start at zero.
\<close>

definition fresh :: "files_File \<Rightarrow> progressReader" where
  "fresh f = \<lparr>pr_file = f, bytes = 0, lastProgress = 0\<rparr>"

subsection \<open>Adding files and directories\<close>

text \<open>
  \<^verbatim>\<open>path.Split\<close>: the path is cut right after its last slash.
\<close>

definition path_Split :: "string \<Rightarrow> string \<times> string" where
  "path_Split p =
     (let name = rev (takeWhile (\<lambda>c. c \<noteq> CHR ''/'') (rev p))
      in (take (length p - length name) p, name))"

text \<open>
  \<^verbatim>\<open>func add(n, reader, useTrickle)\<close>: which importer runs; the reader is the file,
  wrapped or not.
\<close>

definition add :: "env \<Rightarrow> ipfs_node \<Rightarrow> files_File \<Rightarrow> bool \<Rightarrow> nat \<times> (string + dag_node)" where
  "add E n f useTrickle =
     (if useTrickle then BuildTrickleDagFromReader E n f else BuildDagFromReader E n f)"

text \<open>\<^verbatim>\<open>func outputDagnode(out, name, dn)\<close>: the record it sends, or its error.\<close>

definition outputDagnode :: "env \<Rightarrow> string \<Rightarrow> dag_node \<Rightarrow> add_error + AddedObject" where
  "outputDagnode E name dn =
     (case getOutput E dn of
        Inl e \<Rightarrow> Inl (ExtError e)
      | Inr h \<Rightarrow> Inr \<lparr>Name = name, Hash = h, Bytes = 0\<rparr>)"

text \<open>
  \<^verbatim>\<open>addFile\<close> and \<^verbatim>\<open>addDir\<close>. The two equations of \<open>addFile\<close> are the two answers of
  \<^verbatim>\<open>file.IsDirectory()\<close>. \<open>addDir_loop\<close> is the \<^verbatim>\<open>for\<close> loop of \<^verbatim>\<open>addDir\<close> over the
  results of \<^verbatim>\<open>NextFile\<close>, with the tree built so far; a failed \<^verbatim>\<open>NextFile\<close> or an entry
  that fails with anything but a hidden-file error ends it. Each function returns the
  calls made and the node or the error. The importer's \<open>k\<close> reads go through the
  progress reader when \<^verbatim>\<open>params.progress\<close> is set.
\<close>

fun addFile :: "env \<Rightarrow> adder \<Rightarrow> files_File \<Rightarrow> event list \<times> (add_error + dag_node)"
and addDir :: "env \<Rightarrow> adder \<Rightarrow> string \<Rightarrow> next_file list \<Rightarrow> event list \<times> (add_error + dag_node)"
and addDir_loop ::
  "env \<Rightarrow> adder \<Rightarrow> dag_node \<Rightarrow> next_file list \<Rightarrow> event list \<times> (add_error + dag_node)"
where
  "addFile E p (File name rs) =
     (if IsHidden E (File name rs) \<and> \<not> hidden p then ([], Inl (HiddenFileError name))
      else
        (case add E (node p) (File name rs) (trickle p) of (k, r) \<Rightarrow>
           (let sent = (if progress p
                        then map Output (read_n k (fresh (File name rs)))
                        else []);
                ev = Import (node p) (trickle p) name # sent
            in case r of
                 Inl e \<Rightarrow> (ev, Inl (ExtError e))
               | Inr dagnode \<Rightarrow>
                   (case outputDagnode E name dagnode of
                      Inl e \<Rightarrow> (ev, Inl e)
                    | Inr obj \<Rightarrow> (ev @ [Output obj], Inr dagnode)))))"
| "addFile E p (Directory name es) =
     (if IsHidden E (Directory name es) \<and> \<not> hidden p then ([], Inl (HiddenFileError name))
      else addDir E p name es)"
| "addDir E p name es =
     (case addDir_loop E p (Node (FolderPBData E) []) es of
        (ev, Inl e) \<Rightarrow> (ev, Inl e)
      | (ev, Inr tree) \<Rightarrow>
          (case outputDagnode E name tree of
             Inl e \<Rightarrow> (ev, Inl e)
           | Inr obj \<Rightarrow>
               (case DAG_Add_err E (node p) tree of
                  Some e \<Rightarrow> (ev @ [Output obj, DAG_Add (node p) tree], Inl (ExtError e))
                | None \<Rightarrow> (ev @ [Output obj, DAG_Add (node p) tree], Inr tree))))"
| "addDir_loop E p tree [] = ([], Inr tree)"
| "addDir_loop E p tree (NextErr e # es) = ([], Inl (ExtError e))"
| "addDir_loop E p tree (NextFile f # es) =
     (case addFile E p f of
        (ev, Inl e) \<Rightarrow>
          (if isHiddenFileError e
           then (case addDir_loop E p tree es of (ev', r) \<Rightarrow> (ev @ ev', r))
           else (ev, Inl e))
      | (ev, Inr nd) \<Rightarrow>
          (case AddNodeLink E tree (snd (path_Split (FileName f))) nd of
             Inl e \<Rightarrow> (ev, Inl (ExtError e))
           | Inr tree' \<Rightarrow> (case addDir_loop E p tree' es of (ev', r) \<Rightarrow> (ev @ ev', r))))"

subsection \<open>The command\<close>

text \<open>The options \<^verbatim>\<open>Run\<close> reads from the request, and \<^verbatim>\<open>req.Files()\<close>.\<close>

record request =
  progressOption :: bool
  trickleOption :: bool
  wrapOption :: bool
  onlyHashOption :: bool
  hiddenOption :: bool
  Files :: files_File

text \<open>
  The results of the successive \<^verbatim>\<open>NextFile\<close> calls on a file; a plain file has no
  entries to give.
\<close>

fun NextFiles :: "files_File \<Rightarrow> next_file list" where
  "NextFiles (Directory name es) = es"
| "NextFiles (File name rs) = [NextErr ''this file is not a directory'']"

text \<open>
  The body of the closure \<^verbatim>\<open>addSingleFile\<close> between its two \<^verbatim>\<open>defer\<close> statements and
  its return: the calls made and the error returned (\<open>None\<close> is \<^verbatim>\<open>nil\<close>). \<open>n\<close> is the
  captured node.
\<close>

definition addSingleFile_body ::
  "env \<Rightarrow> ipfs_node \<Rightarrow> request \<Rightarrow> files_File \<Rightarrow> event list \<times> add_error option" where
  "addSingleFile_body E n req f =
     (let addParams = \<lparr>node = n, progress = progressOption req, hidden = hiddenOption req,
                       trickle = trickleOption req\<rparr>
      in case addFile E addParams f of
           (ev, Inl e) \<Rightarrow> (ev, Some e)
         | (ev, Inr rootnd) \<Rightarrow>
             (case Key E rootnd of
                Inl e \<Rightarrow> (ev, Some (ExtError e))
              | Inr rnk \<Rightarrow>
                  (if \<not> onlyHashOption req
                   then (case Flush_err E n of
                           Some e \<Rightarrow> (ev @ [PinWithMode n rnk Recursive, Flush n], Some (ExtError e))
                         | None \<Rightarrow> (ev @ [PinWithMode n rnk Recursive, Flush n], None))
                   else (ev, None))))"

text \<open>
  \<^verbatim>\<open>addSingleFile\<close>: both locks are taken first; the deferred unlocks run at the return,
  last deferred first.
\<close>

definition addSingleFile ::
  "env \<Rightarrow> ipfs_node \<Rightarrow> request \<Rightarrow> files_File \<Rightarrow> event list \<times> add_error option" where
  "addSingleFile E n req f =
     (case addSingleFile_body E n req f of
        (ev, err) \<Rightarrow>
          ([PinLock n DataBlocks, PinLock n StateBlocks] @ ev @
           [Unlock n StateBlocks, Unlock n DataBlocks], err))"

text \<open>\<^verbatim>\<open>addFilesSeparately\<close>, over the results of \<^verbatim>\<open>sliceFile.NextFile()\<close>.\<close>

fun addFilesSeparately ::
  "env \<Rightarrow> ipfs_node \<Rightarrow> request \<Rightarrow> next_file list \<Rightarrow> event list \<times> add_error option" where
  "addFilesSeparately E n req [] = ([], None)"
| "addFilesSeparately E n req (NextErr e # es) = ([], Some (ExtError e))"
| "addFilesSeparately E n req (NextFile f # es) =
     (case addSingleFile E n req f of
        (ev, Some e) \<Rightarrow> (ev, Some e)
      | (ev, None) \<Rightarrow>
          (case addFilesSeparately E n req es of (ev', err) \<Rightarrow> (ev @ ev', err)))"

text \<open>
  \<^verbatim>\<open>Run\<close>: the node is fetched, replaced by a node without repository when
  \<^verbatim>\<open>only-hash\<close> is set, and the files are added by the goroutine, which closes the output
  channel when it returns. The result is the calls made and the error set on the response.
\<close>

definition Run :: "env \<Rightarrow> request \<Rightarrow> event list \<times> add_error option" where
  "Run E req =
     (case GetNode_err E of
        Some e \<Rightarrow> ([], Some (ExtError e))
      | None \<Rightarrow>
          (case (if onlyHashOption req
                 then (case NilRepo_err E of Some e \<Rightarrow> Inl e | None \<Rightarrow> Inr NilRepoNode)
                 else Inr RepoNode) of
             Inl e \<Rightarrow> ([], Some (ExtError e))
           | Inr n \<Rightarrow>
               (case (if wrapOption req then addSingleFile E n req (Files req)
                      else addFilesSeparately E n req (NextFiles (Files req))) of
                  (ev, err) \<Rightarrow> (ev @ [CloseOut], err))))"

section \<open>Garbage collection: core/corerepo/gc.go\<close>

text \<open>
  \<^verbatim>\<open>gc.GC(ctx, bs, pinning)\<close> is not part of this source: for each block store it
  answers an error, or the channel of the keys it removes, given here as the keys the
  channel delivers before it is closed.
\<close>

datatype blockstore = Blockstore | PrivBlocks

datatype gc_error = GCFailed string | CtxErr

type_synonym gc_GC = "blockstore \<Rightarrow> string + key list"

text \<open>
  One turn of a \<^verbatim>\<open>select\<close>: what is ready when the goroutine reaches it, and which ready
  case the runtime picks.
\<close>

datatype select_case = CaseRmed | CaseInternal | CaseDone

text \<open>
  The loop of \<^verbatim>\<open>GarbageCollect\<close>. A receive on a channel is always ready here: it
  delivers the next key, or reports the channel closed. The schedule lists the case each
  turn of the \<^verbatim>\<open>select\<close> takes; \<open>CaseDone\<close> stands for a turn at which the context is
  done and its case is the one picked. \<open>None\<close>: the schedule ended with the call still in
  its loop.
\<close>

fun GarbageCollect_loop ::
  "key list \<Rightarrow> key list \<Rightarrow> bool \<Rightarrow> bool \<Rightarrow> select_case list \<Rightarrow> gc_error option option" where
  "GarbageCollect_loop rmed internal normalDone internalDone [] = None"
| "GarbageCollect_loop rmed internal normalDone internalDone (CaseDone # sched) = Some (Some CtxErr)"
| "GarbageCollect_loop rmed internal normalDone internalDone (CaseRmed # sched) =
     (case rmed of
        k # rmed' \<Rightarrow> GarbageCollect_loop rmed' internal normalDone internalDone sched
      | [] \<Rightarrow>
          (if internalDone then Some None
           else GarbageCollect_loop rmed internal True internalDone sched))"
| "GarbageCollect_loop rmed internal normalDone internalDone (CaseInternal # sched) =
     (case internal of
        k # internal' \<Rightarrow> GarbageCollect_loop rmed internal' normalDone internalDone sched
      | [] \<Rightarrow>
          (if normalDone then Some None
           else GarbageCollect_loop rmed internal normalDone True sched))"

text \<open>
  \<^verbatim>\<open>GarbageCollect\<close>: the block stores on which \<^verbatim>\<open>gc.GC\<close> was called, in order, and
  the result: \<open>Some None\<close> is \<^verbatim>\<open>return nil\<close>, \<open>Some (Some e)\<close> an error.
\<close>

definition GarbageCollect ::
  "gc_GC \<Rightarrow> select_case list \<Rightarrow> blockstore list \<times> gc_error option option" where
  "GarbageCollect GC sched =
     (case GC Blockstore of
        Inl e \<Rightarrow> ([Blockstore], Some (Some (GCFailed e)))
      | Inr rmed \<Rightarrow>
          (case GC PrivBlocks of
             Inl e \<Rightarrow> ([Blockstore, PrivBlocks], Some (Some (GCFailed e)))
           | Inr internal \<Rightarrow>
               ([Blockstore, PrivBlocks], GarbageCollect_loop rmed internal False False sched)))"








section \<open>Mounting: the mount command\<close>

text \<open>Go's \<^verbatim>\<open>strings.HasPrefix\<close>, \<^verbatim>\<open>strings.Contains\<close> and \<^verbatim>\<open>strings.Replace\<close> with \<^verbatim>\<open>n = -1\<close>.\<close>

fun strings_HasPrefix :: "string \<Rightarrow> string \<Rightarrow> bool" where
  "strings_HasPrefix s [] = True"
| "strings_HasPrefix [] (p # ps) = False"
| "strings_HasPrefix (c # cs) (p # ps) = (c = p \<and> strings_HasPrefix cs ps)"

fun strings_Contains :: "string \<Rightarrow> string \<Rightarrow> bool" where
  "strings_Contains [] substr = (substr = [])"
| "strings_Contains (c # cs) substr =
     (strings_HasPrefix (c # cs) substr \<or> strings_Contains cs substr)"

function replace_from :: "string \<Rightarrow> string \<Rightarrow> string \<Rightarrow> string" where
  "replace_from old new s =
     (if s = [] then []
      else if old \<noteq> [] \<and> strings_HasPrefix s old
      then new @ replace_from old new (drop (length old) s)
      else hd s # replace_from old new (tl s))"
  by pat_completeness auto
termination
  by (relation "measure (\<lambda>(old, new, s). length s)") auto

declare replace_from.simps [simp del]

definition strings_Replace_all :: "string \<Rightarrow> string \<Rightarrow> string \<Rightarrow> string" where
  "strings_Replace_all s old new =
     (if old = [] then new @ concat (map (\<lambda>c. c # new) s) else replace_from old new s)"

definition fuseNoDirectory :: string where
  "fuseNoDirectory = ''fusermount: failed to access mountpoint''"

definition fuseExitStatus1 :: string where
  "fuseExitStatus1 = ''fusermount: exit status 1''"

text \<open>
  An \<^verbatim>\<open>error\<close> value: a plain error with its message, or one made by
  \<^verbatim>\<open>cmds.ClientError\<close>.
\<close>

datatype cmd_error = PlainError string | ClientError string

fun Error :: "cmd_error \<Rightarrow> string" where
  "Error (PlainError s) = s"
| "Error (ClientError s) = s"

text \<open>
  The closure \<^verbatim>\<open>fmtFuseErr\<close>. Its two raw string literals are
  \<^verbatim>\<open>fusermount: "fusermount:\<close> and a backslash, \<^verbatim>\<open>n", exit status 1\<close>.
\<close>

definition fmtFuseErr :: "cmd_error \<Rightarrow> string \<Rightarrow> cmd_error" where
  "fmtFuseErr err mountpoint =
     (let s = Error err
      in if strings_Contains s fuseNoDirectory
         then ClientError
                (strings_Replace_all
                   (strings_Replace_all s (''fusermount: '' @ [CHR 0x22] @ ''fusermount:'') [])
                   ([CHR 0x5C] @ ''n'' @ [CHR 0x22] @ '', exit status 1'') [])
         else if s = fuseExitStatus1
         then ClientError (''fuse failed to access mountpoint '' @ mountpoint)
         else err)"

text \<open>
  A \<^verbatim>\<open>mount.Mount\<close> is named by its mount point; \<open>None\<close> is the \<^verbatim>\<open>nil\<close> interface.
  \<open>Mounts\<close> is \<^verbatim>\<open>node.Mounts\<close>.
\<close>

type_synonym mount = string

record Mounts =
  Ipfs :: "mount option"
  Ipns :: "mount option"

text \<open>
  What \<^verbatim>\<open>rofs.Mount(node, fsdir)\<close> and \<^verbatim>\<open>ipns.Mount(node, nsdir, fsdir)\<close> return: the pair
  of a mount and an error, as Go returns it.
\<close>

record fuse =
  rofs_Mount :: "string \<Rightarrow> mount option \<times> cmd_error option"
  ipns_Mount :: "string \<Rightarrow> string \<Rightarrow> mount option \<times> cmd_error option"

text \<open>
  \<^verbatim>\<open>doMount\<close>: the node's mounts after the call, the mounts on which \<^verbatim>\<open>Unmount\<close> was
  called, in order, and the error returned. The two goroutines have both finished when
  the results are read.
\<close>

definition doMount ::
  "fuse \<Rightarrow> Mounts \<Rightarrow> string \<Rightarrow> string \<Rightarrow> Mounts \<times> mount list \<times> cmd_error option" where
  "doMount F node_Mounts fsdir nsdir =
     (case rofs_Mount F fsdir of (fsmount, err1) \<Rightarrow>
      case ipns_Mount F nsdir fsdir of (nsmount, err2) \<Rightarrow>
        (if err1 \<noteq> None \<or> err2 \<noteq> None
         then (node_Mounts,
               (case fsmount of Some m \<Rightarrow> [m] | None \<Rightarrow> []) @
               (case nsmount of Some m \<Rightarrow> [m] | None \<Rightarrow> []),
               (case err1 of
                  Some e1 \<Rightarrow> Some (fmtFuseErr e1 fsdir)
                | None \<Rightarrow> (case err2 of Some e2 \<Rightarrow> Some (fmtFuseErr e2 nsdir) | None \<Rightarrow> None)))
         else (node_Mounts\<lparr>Ipfs := fsmount, Ipns := nsmount\<rparr>, [], None)))"

section \<open>Dial filters: package filter\<close>

text \<open>
  \<^verbatim>\<open>net.IP\<close> is a byte slice, \<^verbatim>\<open>nil\<close> the empty one; \<^verbatim>\<open>net.IPNet\<close> an address and a
  mask. A multiaddr is given by its text.
\<close>

type_synonym IP = "8 word list"

record IPNet =
  net_IP :: IP
  net_Mask :: "8 word list"

type_synonym Multiaddr = string

text \<open>
  The library calls of the package: \<^verbatim>\<open>manet.DialArgs\<close> (the network and the address, or
  an error), \<^verbatim>\<open>net.ParseIP\<close>, \<^verbatim>\<open>(*IPNet).Contains\<close> and \<^verbatim>\<open>(*IPNet).String\<close>.
\<close>

record netlib =
  DialArgs :: "Multiaddr \<Rightarrow> string + string \<times> string"
  ParseIP :: "string \<Rightarrow> IP"
  Contains :: "IPNet \<Rightarrow> IP \<Rightarrow> bool"
  IPNet_String :: "IPNet \<Rightarrow> string"




text \<open>
  \<^verbatim>\<open>type Filters struct\<close>: the map \<^verbatim>\<open>filters\<close> from the text of a network to the
  network, as the list of its entries in the order a \<^verbatim>\<open>range\<close> visits them (any order).
\<close>

record Filters =
  filters :: "(string \<times> IPNet) list"



definition Remove :: "netlib \<Rightarrow> Filters \<Rightarrow> IPNet \<Rightarrow> Filters" where
  "Remove L fs ff = fs\<lparr>filters := AList.delete (IPNet_String L ff) (filters fs)\<rparr>"



section \<open>Properties of call sequences\<close>

text \<open>
  The calls \<^verbatim>\<open>addFile\<close> may make: imports and \<^verbatim>\<open>DAG.Add\<close> on the given node, and
  records sent on the output channel.
\<close>

fun event_inner :: "ipfs_node \<Rightarrow> event \<Rightarrow> bool" where
  "event_inner n (Import m t name) = (m = n)"
| "event_inner n (Output obj) = True"
| "event_inner n (DAG_Add m t) = (m = n)"
| "event_inner n (PinLock m d) = False"
| "event_inner n (Unlock m d) = False"
| "event_inner n (PinWithMode m k pm) = False"
| "event_inner n (Flush m) = False"
| "event_inner n CloseOut = False"

text \<open>
  \<open>guarded n d s evs\<close>: starting with the add-lock of \<open>n\<close>'s data blocks held or not
  (\<open>d\<close>) and that of its state blocks held or not (\<open>s\<close>), every lock is taken when free
  and released when held, every write to the block stores and to the pin set is made on
  \<open>n\<close> with both locks held, and both locks are free at the end.
\<close>

fun guarded :: "ipfs_node \<Rightarrow> bool \<Rightarrow> bool \<Rightarrow> event list \<Rightarrow> bool" where
  "guarded n d s [] = (\<not> d \<and> \<not> s)"
| "guarded n d s (PinLock m DataBlocks # evs) = (m = n \<and> \<not> d \<and> guarded n True s evs)"
| "guarded n d s (PinLock m StateBlocks # evs) = (m = n \<and> \<not> s \<and> guarded n d True evs)"
| "guarded n d s (Unlock m DataBlocks # evs) = (m = n \<and> d \<and> guarded n False s evs)"
| "guarded n d s (Unlock m StateBlocks # evs) = (m = n \<and> s \<and> guarded n d False evs)"
| "guarded n d s (Import m t name # evs) = (m = n \<and> d \<and> s \<and> guarded n d s evs)"
| "guarded n d s (DAG_Add m t # evs) = (m = n \<and> d \<and> s \<and> guarded n d s evs)"
| "guarded n d s (PinWithMode m k pm # evs) = (m = n \<and> d \<and> s \<and> guarded n d s evs)"
| "guarded n d s (Flush m # evs) = (m = n \<and> d \<and> s \<and> guarded n d s evs)"
| "guarded n d s (Output obj # evs) = guarded n d s evs"
| "guarded n d s (CloseOut # evs) = (\<not> d \<and> \<not> s \<and> guarded n d s evs)"



text \<open>
  A field of an \<^verbatim>\<open>AddedObject\<close> is set when it differs from Go's zero value: the
  command's \<^verbatim>\<open>PostRun\<close> tells a completion by \<^verbatim>\<open>len(output.Hash) > 0\<close>, and both fields are
  \<^verbatim>\<open>omitempty\<close>.
\<close>

definition hash_set :: "AddedObject \<Rightarrow> bool" where
  "hash_set obj = (Hash obj \<noteq> [])"

definition bytes_set :: "AddedObject \<Rightarrow> bool" where
  "bytes_set obj = (Bytes obj \<noteq> 0)"

section \<open>Progress records, specified\<close>

text \<open>
  The threshold on the bytes read since the last record, as the claim words it
  (\<open>exceeds\<close>) and as the comparison \<^verbatim>\<open>>=\<close> has it (\<open>reaches\<close>).
\<close>

definition exceeds :: "nat \<Rightarrow> bool" where
  "exceeds d = (1024 * 256 < d)"

definition reaches :: "nat \<Rightarrow> bool" where
  "reaches d = (1024 * 256 \<le> d)"

text \<open>
  The progress records a sequence of reads must produce, in unbounded arithmetic: after
  each read, a record with the file name and the bytes read so far when the bytes read
  since the last record are \<open>due\<close>, and in any case when the read reports the end of
  the stream. \<open>sofar\<close> is the count before the reads, \<open>mark\<close> the count at the last
  record.
\<close>

fun records_when ::
  "(nat \<Rightarrow> bool) \<Rightarrow> string \<Rightarrow> nat \<Rightarrow> nat \<Rightarrow> read_result list \<Rightarrow> AddedObject list" where
  "records_when due name sofar mark [] = []"
| "records_when due name sofar mark ((n, err) # rs) =
     (if due (sofar + n - mark) \<or> err = Some EOF
      then \<lparr>Name = name, Hash = [], Bytes = of_nat (sofar + n)\<rparr> #
           records_when due name (sofar + n) (sofar + n) rs
      else records_when due name (sofar + n) mark rs)"


section \<open>The records of a run, specified\<close>

text \<open>The plain files of a file tree: those whose bytes the importer reads.\<close>

fun plain_files :: "files_File \<Rightarrow> files_File list"
and plain_entries :: "next_file list \<Rightarrow> files_File list" where
  "plain_files (File name rs) = [File name rs]"
| "plain_files (Directory name es) = plain_entries es"
| "plain_entries [] = []"
| "plain_entries (NextFile f # es) = plain_files f @ plain_entries es"
| "plain_entries (NextErr e # es) = plain_entries es"

text \<open>
  The results of the first \<open>k\<close> \<^verbatim>\<open>Read\<close> calls on a file whose results are \<open>rs\<close>, as
  \<open>file_Read\<close> gives them.
\<close>

fun reads_made :: "nat \<Rightarrow> read_result list \<Rightarrow> read_result list" where
  "reads_made 0 rs = []"
| "reads_made (Suc k) [] = (0, Some EOF) # reads_made k []"
| "reads_made (Suc k) (r # rs) = r # reads_made k rs"

text \<open>
  Some read reports the end of the stream, and no read up to and including it returns
  a byte: the stream ends before any data.
\<close>

fun eof_before_data :: "read_result list \<Rightarrow> bool" where
  "eof_before_data [] = False"
| "eof_before_data ((n, err) # xs) = (n = 0 \<and> (err = Some EOF \<or> eof_before_data xs))"

section \<open>The merged channel, specified\<close>




section \<open>Concrete inputs\<close>

text \<open>
  Collaborators for the examples: a file is hidden when its base name starts with a dot;
  the balanced importer fails on \<^verbatim>\<open>docs/bad\<close> after one read and otherwise reads twice;
  a node's hash is \<^verbatim>\<open>Qm\<close> followed by its data; a link named \<^verbatim>\<open>dup\<close> is refused;
  nothing else fails.
\<close>

definition E0 :: env where
  "E0 = \<lparr>IsHidden = (\<lambda>f. strings_HasPrefix (snd (path_Split (FileName f))) ''.''),
         BuildDagFromReader = (\<lambda>n f. if FileName f = ''docs/bad''
                                 then (1, Inl ''read failed'')
                                 else (2, Inr (Node (FileName f) []))),
         BuildTrickleDagFromReader = (\<lambda>n f. (1, Inr (Node (FileName f) []))),
         getOutput = (\<lambda>dn. Inr (''Qm'' @ Data dn)),
         FolderPBData = ''folder'',
         AddNodeLink = (\<lambda>t name c. if name = ''dup'' then Inl ''link failed''
                                    else Inr (Node (Data t) (Links t @ [(name, c)]))),
         DAG_Add_err = (\<lambda>n t. None),
         Key = (\<lambda>dn. Inr (''Qm'' @ Data dn)),
         Flush_err = (\<lambda>n. None),
         GetNode_err = None,
         NilRepo_err = None\<rparr>"

definition p0 :: adder where
  "p0 = \<lparr>node = RepoNode, progress = True, hidden = False, trickle = False\<rparr>"

definition a_txt :: files_File where
  "a_txt = File ''a.txt'' [(300, None), (0, Some EOF)]"

definition req0 :: request where
  "req0 = \<lparr>progressOption = True, trickleOption = False, wrapOption = False,
           onlyHashOption = False, hiddenOption = False,
           Files = Directory [] [NextFile a_txt]\<rparr>"


definition req_secret :: request where
  "req_secret = req0\<lparr>Files := Directory [] [NextFile (File ''.secret'' [(5, Some EOF)])]\<rparr>"

text \<open>
  Fuse for the examples: the read-only mount always succeeds; the IPNS mount succeeds
  at \<^verbatim>\<open>/ipns\<close> only.
\<close>

definition F0 :: fuse where
  "F0 = \<lparr>rofs_Mount = (\<lambda>fsdir. (Some fsdir, None)),
         ipns_Mount = (\<lambda>nsdir fsdir. if nsdir = ''/ipns'' then (Some nsdir, None)
                         else (None, Some (PlainError ''fusermount: exit status 1'')))\<rparr>"

definition M0 :: Mounts where
  "M0 = \<lparr>Ipfs = None, Ipns = None\<rparr>"



text \<open>
  Three behaviours of \<^verbatim>\<open>gc.GC\<close> for the examples: the pass over the data blocks fails;
  the pass over the private blocks fails; both passes start.
\<close>

definition GC_data_fails :: gc_GC where
  "GC_data_fails = (\<lambda>bs. case bs of Blockstore \<Rightarrow> Inl ''cannot list pins''
                                     | PrivBlocks \<Rightarrow> Inr [''QmState''])"

definition GC_priv_fails :: gc_GC where
  "GC_priv_fails = (\<lambda>bs. case bs of Blockstore \<Rightarrow> Inr [''QmA'', ''QmB'']
                                     | PrivBlocks \<Rightarrow> Inl ''cannot list keys'')"

definition GC_ok :: gc_GC where
  "GC_ok = (\<lambda>bs. case bs of Blockstore \<Rightarrow> Inr [''QmA'', ''QmB'']
                             | PrivBlocks \<Rightarrow> Inr [''QmState''])"





definition req_empty :: request where
  "req_empty = req0\<lparr>Files := Directory [] [NextFile (File ''empty.txt'' [(0, Some EOF)])]\<rparr>"

definition req_secret_wrap :: request where
  "req_secret_wrap = req_secret\<lparr>wrapOption := True\<rparr>"


section \<open>Evaluating the concrete inputs\<close>

lemmas E0_eval = E0_def add_def outputDagnode_def path_Split_def progressReader_Read_def fresh_def
  progressReaderIncrement_def numeral_2_eq_2 word_sle_eq

section \<open>The add-locks\<close>

lemma addFile_events_inner:
  "list_all (event_inner (node p)) (fst (addFile E p f))"
  "list_all (event_inner (node p)) (fst (addDir E p name es))"
  "list_all (event_inner (node p)) (fst (addDir_loop E p tree es))"
proof (induction E p f and E p name es and E p tree es rule: addFile_addDir_addDir_loop.induct)
  case (1 E p name rs)
  then show ?case
    by (auto simp: list_all_iff Let_def split: prod.splits sum.splits)
next
  case (2 E p name es)
  then show ?case by simp
next
  case (3 E p name es)
  then show ?case
    by (auto simp: list_all_iff split: prod.splits sum.splits option.splits)
next
  case (4 E p tree)
  then show ?case by simp
next
  case (5 E p tree e es)
  then show ?case by simp
next
  case (6 E p tree f es)
  then show ?case
    by (auto simp: list_all_iff split: prod.splits sum.splits if_splits)
qed

lemma guarded_inner:
  "list_all (event_inner n) ev \<Longrightarrow> guarded n True True (ev @ rest) = guarded n True True rest"
proof (induction ev)
  case Nil
  then show ?case by simp
next
  case (Cons e ev)
  then show ?case by (cases e) auto
qed

lemma addSingleFile_body_events:
  assumes "addSingleFile_body E n req f = (ev, err)"
  shows "list_all (event_inner n) ev \<or>
         (\<exists>ev0 k. ev = ev0 @ [PinWithMode n k Recursive, Flush n] \<and>
                   list_all (event_inner n) ev0 \<and> \<not> onlyHashOption req)"
proof -
  let ?p = "\<lparr>node = n, progress = progressOption req, hidden = hiddenOption req,
             trickle = trickleOption req\<rparr>"
  have "list_all (event_inner n) (fst (addFile E ?p f))"
    using addFile_events_inner(1) [of ?p E f] by simp
  with assms show ?thesis
    by (auto simp: addSingleFile_body_def Let_def
             split: prod.splits sum.splits if_splits option.splits)
qed

text \<open>
  C2. Every call of \<^verbatim>\<open>addSingleFile\<close> takes the add-lock of the data blocks and then
  that of the state blocks before anything else, makes every write with both held, and
  releases both (state blocks first) as its last two calls, whatever it returns.
\<close>

theorem addSingleFile_locks:
  "guarded n False False (fst (addSingleFile E n req f)) \<and>
   (\<exists>mid. fst (addSingleFile E n req f) =
      PinLock n DataBlocks # PinLock n StateBlocks # mid @
      [Unlock n StateBlocks, Unlock n DataBlocks])"
proof -
  obtain ev err where body: "addSingleFile_body E n req f = (ev, err)"
    by (cases "addSingleFile_body E n req f")
  from addSingleFile_body_events [OF body]
  have "guarded n True True (ev @ [Unlock n StateBlocks, Unlock n DataBlocks])"
    by (auto simp: guarded_inner)
  then show ?thesis
    by (simp add: addSingleFile_def body)
qed

section \<open>Pinning the root\<close>











section \<open>Hidden files\<close>

lemma hidden_error_origin:
  "snd (addFile E p f) = Inl (HiddenFileError x) \<Longrightarrow>
     IsHidden E f \<and> \<not> hidden p \<and> x = FileName f"
  "snd (addDir E p name es) \<noteq> Inl (HiddenFileError x)"
  "snd (addDir_loop E p tree es) \<noteq> Inl (HiddenFileError x)"
proof (induction E p f and E p name es and E p tree es rule: addFile_addDir_addDir_loop.induct)
  case (1 E p name rs)
  then show ?case
    by (auto simp: Let_def outputDagnode_def split: if_splits prod.splits sum.splits)
next
  case (2 E p name es)
  then show ?case by (auto split: if_splits)
next
  case (3 E p name es)
  then show ?case
    by (auto simp: outputDagnode_def split: prod.splits sum.splits option.splits)
next
  case (4 E p tree)
  then show ?case by simp
next
  case (5 E p tree e es)
  then show ?case by simp
next
  case (6 E p tree f es)
  obtain ev r where af: "addFile E p f = (ev, r)"
    by (cases "addFile E p f")
  show ?case
  proof (cases r)
    case (Inl e)
    show ?thesis
    proof (cases "isHiddenFileError e")
      case True
      from 6(2) [OF af [symmetric] Inl True]
      have "snd (addDir_loop E p tree es) \<noteq> Inl (HiddenFileError x)" .
      with af Inl True show ?thesis
        by (auto split: prod.splits)
    next
      case False
      with af Inl show ?thesis by (cases e) auto
    qed
  next
    case (Inr nd)
    show ?thesis
    proof (cases "AddNodeLink E tree (snd (path_Split (FileName f))) nd")
      case (Inl msg)
      with af Inr show ?thesis by simp
    next
      case (Inr tree')
      from 6(3) [OF af [symmetric] \<open>r = Inr nd\<close> Inr]
      have "snd (addDir_loop E p tree' es) \<noteq> Inl (HiddenFileError x)" .
      with af \<open>r = Inr nd\<close> Inr show ?thesis
        by (auto split: prod.splits)
    qed
  qed
qed

lemma addSingleFile_hidden_error:
  assumes "snd (addSingleFile E n req f) = Some (HiddenFileError x)"
  shows "IsHidden E f \<and> \<not> hiddenOption req \<and> x = FileName f"
proof -
  let ?p = "\<lparr>node = n, progress = progressOption req, hidden = hiddenOption req,
             trickle = trickleOption req\<rparr>"
  from assms have "snd (addFile E ?p f) = Inl (HiddenFileError x)"
    by (auto simp: addSingleFile_def addSingleFile_body_def Let_def
             split: prod.splits sum.splits option.splits if_splits)
  from hidden_error_origin(1) [OF this] show ?thesis by simp
qed

lemma addFilesSeparately_hidden_error:
  "snd (addFilesSeparately E n req es) = Some (HiddenFileError x) \<Longrightarrow>
   \<not> hiddenOption req \<and> (\<exists>f. NextFile f \<in> set es \<and> IsHidden E f \<and> x = FileName f)"
proof (induction es)
  case Nil
  then show ?case by simp
next
  case (Cons e es)
  show ?case
  proof (cases e)
    case (NextErr msg)
    with Cons.prems show ?thesis by simp
  next
    case (NextFile f)
    obtain ev err where s: "addSingleFile E n req f = (ev, err)"
      by (cases "addSingleFile E n req f")
    show ?thesis
    proof (cases err)
      case None
      with Cons NextFile s show ?thesis
        by (auto split: prod.splits)
    next
      case (Some a)
      with Cons.prems NextFile s have "snd (addSingleFile E n req f) = Some (HiddenFileError x)"
        by simp
      from addSingleFile_hidden_error [OF this] NextFile show ?thesis by auto
    qed
  qed
qed

text \<open>
  C5, as the code has it. With \<^verbatim>\<open>hidden\<close> unset, a hidden entry of a directory changes
  nothing: the loop of \<^verbatim>\<open>addDir\<close> goes on with the entries after it, with the same tree
  (no link) and no call made for it, and \<^verbatim>\<open>addDir\<close> gives what it gives without the
  entry. A hidden file handed to \<^verbatim>\<open>addSingleFile\<close> makes it return the hidden-file error
  with nothing done but taking and releasing the locks, and a run that adds its inputs
  one by one (no \<^verbatim>\<open>wrap-with-directory\<close>) then ends with that error. A run ends with a
  hidden-file error only for a file handed to \<^verbatim>\<open>addSingleFile\<close>: with
  \<^verbatim>\<open>wrap-with-directory\<close> that is the wrapping directory itself, never one of the inputs.
\<close>

theorem hidden_files:
  "(IsHidden E c \<and> \<not> hidden p \<longrightarrow>
      addDir_loop E p tree (NextFile c # es) = addDir_loop E p tree es \<and>
      addDir E p name (NextFile c # es) = addDir E p name es) \<and>
   (IsHidden E f \<and> \<not> hiddenOption req \<longrightarrow>
      addSingleFile E n req f =
        ([PinLock n DataBlocks, PinLock n StateBlocks, Unlock n StateBlocks, Unlock n DataBlocks],
         Some (HiddenFileError (FileName f)))) \<and>
   (IsHidden E f \<and> \<not> hiddenOption req \<and> \<not> wrapOption req \<and>
    NextFiles (Files req) = NextFile f # rest \<and>
    GetNode_err E = None \<and> (onlyHashOption req \<longrightarrow> NilRepo_err E = None) \<longrightarrow>
      snd (Run E req) = Some (HiddenFileError (FileName f))) \<and>
   (snd (Run E req) = Some (HiddenFileError x) \<longrightarrow>
      \<not> hiddenOption req \<and>
      (if wrapOption req then IsHidden E (Files req) \<and> x = FileName (Files req)
       else (\<exists>g. NextFile g \<in> set (NextFiles (Files req)) \<and> IsHidden E g \<and> x = FileName g)))"
proof -
  have hid: "addFile E q g = ([], Inl (HiddenFileError (FileName g)))"
    if "IsHidden E g" "\<not> hidden q" for q g
    using that by (cases g) simp_all
  have single: "addSingleFile E m req f =
        ([PinLock m DataBlocks, PinLock m StateBlocks, Unlock m StateBlocks, Unlock m DataBlocks],
         Some (HiddenFileError (FileName f)))"
    if "IsHidden E f" "\<not> hiddenOption req" for m
    using that by (simp add: addSingleFile_def addSingleFile_body_def hid)
  have skip: "addDir_loop E p tree (NextFile c # es) = addDir_loop E p tree es \<and>
              addDir E p name (NextFile c # es) = addDir E p name es"
    if "IsHidden E c" "\<not> hidden p"
    using that by (simp add: hid split: prod.splits)
  have sole: "snd (Run E req) = Some (HiddenFileError (FileName f))"
    if "IsHidden E f" "\<not> hiddenOption req" "\<not> wrapOption req"
       "NextFiles (Files req) = NextFile f # rest"
       "GetNode_err E = None" "onlyHashOption req \<longrightarrow> NilRepo_err E = None"
    using that by (auto simp: Run_def single split: prod.splits)
  have only: "\<not> hiddenOption req \<and>
      (if wrapOption req then IsHidden E (Files req) \<and> x = FileName (Files req)
       else (\<exists>g. NextFile g \<in> set (NextFiles (Files req)) \<and> IsHidden E g \<and> x = FileName g))"
    if r: "snd (Run E req) = Some (HiddenFileError x)"
  proof -
    let ?n = "if onlyHashOption req then NilRepoNode else RepoNode"
    have n: "snd (if wrapOption req then addSingleFile E ?n req (Files req)
            else addFilesSeparately E ?n req (NextFiles (Files req))) = Some (HiddenFileError x)"
      using r by (auto simp: Run_def split: option.splits sum.splits prod.splits if_splits)
    show ?thesis
    proof (cases "wrapOption req")
      case True
      with n addSingleFile_hidden_error [of E ?n req "Files req" x] show ?thesis by simp
    next
      case False
      with n addFilesSeparately_hidden_error [of E ?n req "NextFiles (Files req)" x]
      show ?thesis by simp
    qed
  qed
  have c1: "IsHidden E c \<and> \<not> hidden p \<longrightarrow>
      addDir_loop E p tree (NextFile c # es) = addDir_loop E p tree es \<and>
      addDir E p name (NextFile c # es) = addDir E p name es"
    by (intro impI, elim conjE, rule skip)
  have c2: "IsHidden E f \<and> \<not> hiddenOption req \<longrightarrow>
      addSingleFile E n req f =
        ([PinLock n DataBlocks, PinLock n StateBlocks, Unlock n StateBlocks, Unlock n DataBlocks],
         Some (HiddenFileError (FileName f)))"
    by (intro impI, elim conjE, rule single)
  have c3: "IsHidden E f \<and> \<not> hiddenOption req \<and> \<not> wrapOption req \<and>
    NextFiles (Files req) = NextFile f # rest \<and>
    GetNode_err E = None \<and> (onlyHashOption req \<longrightarrow> NilRepo_err E = None) \<longrightarrow>
      snd (Run E req) = Some (HiddenFileError (FileName f))"
    by (intro impI, elim conjE, rule sole)
  have c4: "snd (Run E req) = Some (HiddenFileError x) \<longrightarrow>
      \<not> hiddenOption req \<and>
      (if wrapOption req then IsHidden E (Files req) \<and> x = FileName (Files req)
       else (\<exists>g. NextFile g \<in> set (NextFiles (Files req)) \<and> IsHidden E g \<and> x = FileName g))"
    by (intro impI, rule only)
  show ?thesis
    using c1 c2 c3 c4 by - (intro conjI; assumption)
qed

theorem hidden_files_witness:
  "addDir_loop E0 p0 (Node ''folder'' []) [NextFile (File ''docs/.git'' []), NextFile a_txt] =
     ([Import RepoNode False ''a.txt'',
       Output \<lparr>Name = ''a.txt'', Hash = [], Bytes = 300\<rparr>,
       Output \<lparr>Name = ''a.txt'', Hash = ''Qma.txt'', Bytes = 0\<rparr>],
      Inr (Node ''folder'' [(''a.txt'', Node ''a.txt'' [])])) \<and>
   addSingleFile E0 RepoNode req_secret (File ''.secret'' [(5, Some EOF)]) =
     ([PinLock RepoNode DataBlocks, PinLock RepoNode StateBlocks,
       Unlock RepoNode StateBlocks, Unlock RepoNode DataBlocks],
      Some (HiddenFileError ''.secret'')) \<and>
   snd (Run E0 req_secret) = Some (HiddenFileError ''.secret'') \<and>
   \<not> wrapOption req_secret \<and>
   NextFile (File ''.secret'' [(5, Some EOF)]) \<in> set (NextFiles (Files req_secret))"
proof -
  have h1: "IsHidden E0 (File ''docs/.git'' []) \<and> \<not> hidden p0"
    by (simp add: E0_def p0_def path_Split_def)
  have h2: "IsHidden E0 (File ''.secret'' [(5, Some EOF)]) \<and> \<not> hiddenOption req_secret \<and>
            \<not> wrapOption req_secret \<and>
            NextFiles (Files req_secret) = NextFile (File ''.secret'' [(5, Some EOF)]) # [] \<and>
            GetNode_err E0 = None \<and> (onlyHashOption req_secret \<longrightarrow> NilRepo_err E0 = None)"
    by (simp add: E0_def req_secret_def req0_def path_Split_def)
  have a: "addDir_loop E0 p0 (Node ''folder'' []) [NextFile a_txt] =
     ([Import RepoNode False ''a.txt'',
       Output \<lparr>Name = ''a.txt'', Hash = [], Bytes = 300\<rparr>,
       Output \<lparr>Name = ''a.txt'', Hash = ''Qma.txt'', Bytes = 0\<rparr>],
      Inr (Node ''folder'' [(''a.txt'', Node ''a.txt'' [])]))"
    by (simp add: E0_eval a_txt_def p0_def)
  show ?thesis
    using hidden_files [where E = E0 and c = "File ''docs/.git'' []" and p = p0
        and tree = "Node ''folder'' []" and es = "[NextFile a_txt]" and name = "''docs''"
        and f = "File ''.secret'' [(5, Some EOF)]" and req = req_secret and n = RepoNode
        and rest = "[]" and x = "''.secret''"] h1 h2 a
    by (simp del: addDir.simps addDir_loop.simps addFile.simps)
qed

text \<open>
  C5 as stated fails: with \<^verbatim>\<open>wrap-with-directory\<close>, a sole hidden input with \<^verbatim>\<open>hidden\<close>
  unset is an entry of the wrapping directory; it is skipped, and the run adds and pins
  the empty directory without any error.
\<close>

theorem hidden_files_counterexample:
  "IsHidden E0 (File ''.secret'' [(5, Some EOF)]) \<and> \<not> hiddenOption req_secret_wrap \<and>
   NextFiles (Files req_secret_wrap) = [NextFile (File ''.secret'' [(5, Some EOF)])] \<and>
   Run E0 req_secret_wrap =
     ([PinLock RepoNode DataBlocks, PinLock RepoNode StateBlocks,
       Output \<lparr>Name = [], Hash = ''Qmfolder'', Bytes = 0\<rparr>,
       DAG_Add RepoNode (Node ''folder'' []),
       PinWithMode RepoNode ''Qmfolder'' Recursive, Flush RepoNode,
       Unlock RepoNode StateBlocks, Unlock RepoNode DataBlocks, CloseOut],
      None)"
  by (simp add: Run_def req_secret_wrap_def req_secret_def req0_def addSingleFile_def
        addSingleFile_body_def E0_eval)

section \<open>Errors in a directory\<close>

lemma addDir_loop_append:
  "addDir_loop E p tree (pre @ rest) =
     (case addDir_loop E p tree pre of
        (ev, Inl e) \<Rightarrow> (ev, Inl e)
      | (ev, Inr t) \<Rightarrow> (case addDir_loop E p t rest of (ev', r) \<Rightarrow> (ev @ ev', r)))"
proof (induction pre arbitrary: tree)
  case Nil
  then show ?case by (simp split: prod.splits)
next
  case (Cons x pre)
  show ?case
  proof (cases x)
    case (NextFile f)
    then show ?thesis
      by (simp add: Cons.IH split: prod.splits sum.splits)
  next
    case (NextErr e)
    then show ?thesis by simp
  qed
qed

text \<open>
  C6. Let the entries before a child be processed without error. If \<^verbatim>\<open>addFile\<close> fails
  on the child with an error that is not the hidden-file error, or linking the child's
  node fails, or \<^verbatim>\<open>NextFile\<close> fails, then \<^verbatim>\<open>addDir\<close> returns that error, and the calls
  it has made are those of the earlier entries and of the child only: no later entry is
  processed, no record is sent for the directory and \<^verbatim>\<open>DAG.Add\<close> is not called on its
  node.
\<close>

theorem addDir_abort:
  assumes "addDir_loop E p (Node (FolderPBData E) []) pre = (evs, Inr tree)"
  shows "(addFile E p c = (evc, Inl e) \<and> \<not> isHiddenFileError e \<longrightarrow>
            addDir E p name (pre @ NextFile c # post) = (evs @ evc, Inl e)) \<and>
         (addFile E p c = (evc, Inr nd) \<and>
          AddNodeLink E tree (snd (path_Split (FileName c))) nd = Inl msg \<longrightarrow>
            addDir E p name (pre @ NextFile c # post) = (evs @ evc, Inl (ExtError msg))) \<and>
         addDir E p name (pre @ NextErr msg # post) = (evs, Inl (ExtError msg))"
  using assms by (simp add: addDir_loop_append)

theorem addDir_abort_witness:
  "addDir E0 p0 ''docs''
     [NextFile a_txt, NextFile (File ''docs/bad'' [(7, None)]), NextFile (Directory ''docs/sub'' [])] =
     ([Import RepoNode False ''a.txt'',
       Output \<lparr>Name = ''a.txt'', Hash = [], Bytes = 300\<rparr>,
       Output \<lparr>Name = ''a.txt'', Hash = ''Qma.txt'', Bytes = 0\<rparr>,
       Import RepoNode False ''docs/bad''],
      Inl (ExtError ''read failed'')) \<and>
   addDir E0 p0 ''docs''
     [NextFile a_txt, NextFile (File ''docs/dup'' [(4, None), (0, Some EOF)]), NextFile (Directory ''docs/sub'' [])] =
     ([Import RepoNode False ''a.txt'',
       Output \<lparr>Name = ''a.txt'', Hash = [], Bytes = 300\<rparr>,
       Output \<lparr>Name = ''a.txt'', Hash = ''Qma.txt'', Bytes = 0\<rparr>,
       Import RepoNode False ''docs/dup'',
       Output \<lparr>Name = ''docs/dup'', Hash = [], Bytes = 4\<rparr>,
       Output \<lparr>Name = ''docs/dup'', Hash = ''Qmdocs/dup'', Bytes = 0\<rparr>],
      Inl (ExtError ''link failed'')) \<and>
   addDir E0 p0 ''docs'' [NextFile a_txt, NextErr ''permission denied'', NextFile a_txt] =
     ([Import RepoNode False ''a.txt'',
       Output \<lparr>Name = ''a.txt'', Hash = [], Bytes = 300\<rparr>,
       Output \<lparr>Name = ''a.txt'', Hash = ''Qma.txt'', Bytes = 0\<rparr>],
      Inl (ExtError ''permission denied''))"
proof -
  have pre: "addDir_loop E0 p0 (Node (FolderPBData E0) []) [NextFile a_txt] =
     ([Import RepoNode False ''a.txt'',
       Output \<lparr>Name = ''a.txt'', Hash = [], Bytes = 300\<rparr>,
       Output \<lparr>Name = ''a.txt'', Hash = ''Qma.txt'', Bytes = 0\<rparr>],
      Inr (Node ''folder'' [(''a.txt'', Node ''a.txt'' [])]))"
    by (simp add: E0_eval a_txt_def p0_def)
  have bad: "addFile E0 p0 (File ''docs/bad'' [(7, None)]) =
     ([Import RepoNode False ''docs/bad''], Inl (ExtError ''read failed'')) \<and>
     \<not> isHiddenFileError (ExtError ''read failed'')"
    by (simp add: E0_eval p0_def)
  have dup: "addFile E0 p0 (File ''docs/dup'' [(4, None), (0, Some EOF)]) =
     ([Import RepoNode False ''docs/dup'',
       Output \<lparr>Name = ''docs/dup'', Hash = [], Bytes = 4\<rparr>,
       Output \<lparr>Name = ''docs/dup'', Hash = ''Qmdocs/dup'', Bytes = 0\<rparr>],
      Inr (Node ''docs/dup'' [])) \<and>
     AddNodeLink E0 (Node ''folder'' [(''a.txt'', Node ''a.txt'' [])])
       (snd (path_Split (FileName (File ''docs/dup'' [(4, None), (0, Some EOF)])))) (Node ''docs/dup'' []) =
       Inl ''link failed''"
    by (simp add: E0_eval p0_def)
  show ?thesis
    using addDir_abort [OF pre, where c = "File ''docs/bad'' [(7, None)]" and name = "''docs''"
        and post = "[NextFile (Directory ''docs/sub'' [])]"
        and evc = "[Import RepoNode False ''docs/bad'']" and e = "ExtError ''read failed''"
        and nd = "Node [] []" and msg = "[]"] bad
      addDir_abort [OF pre, where c = "File ''docs/dup'' [(4, None), (0, Some EOF)]"
        and name = "''docs''" and post = "[NextFile (Directory ''docs/sub'' [])]"
        and evc = "[Import RepoNode False ''docs/dup'',
                    Output \<lparr>Name = ''docs/dup'', Hash = [], Bytes = 4\<rparr>,
                    Output \<lparr>Name = ''docs/dup'', Hash = ''Qmdocs/dup'', Bytes = 0\<rparr>]"
        and nd = "Node ''docs/dup'' []" and msg = "''link failed''"
        and e = "ExtError []"] dup
      addDir_abort [OF pre, where name = "''docs''" and post = "[NextFile a_txt]"
        and msg = "''permission denied''" and c = a_txt and evc = "[]" and e = "ExtError []"
        and nd = "Node [] []"]
    by (simp del: addFile.simps addDir.simps addDir_loop.simps)
qed


section \<open>Mounting\<close>

text \<open>
  C9. When either mount fails, \<^verbatim>\<open>doMount\<close> leaves \<^verbatim>\<open>node.Mounts\<close> as it was, calls
  \<^verbatim>\<open>Unmount\<close> on each mount that was returned, and returns an error. When both succeed
  it assigns both fields and unmounts nothing. The fields change only when both succeed.
\<close>

theorem doMount_spec:
  assumes "rofs_Mount F fsdir = (fsmount, err1)"
    and "ipns_Mount F nsdir fsdir = (nsmount, err2)"
  shows "(err1 \<noteq> None \<or> err2 \<noteq> None \<longrightarrow>
            fst (doMount F M fsdir nsdir) = M \<and>
            fst (snd (doMount F M fsdir nsdir)) =
              (case fsmount of Some m \<Rightarrow> [m] | None \<Rightarrow> []) @
              (case nsmount of Some m \<Rightarrow> [m] | None \<Rightarrow> []) \<and>
            snd (snd (doMount F M fsdir nsdir)) \<noteq> None) \<and>
         (err1 = None \<and> err2 = None \<longrightarrow>
            doMount F M fsdir nsdir = (M\<lparr>Ipfs := fsmount, Ipns := nsmount\<rparr>, [], None)) \<and>
         (fst (doMount F M fsdir nsdir) \<noteq> M \<longrightarrow> err1 = None \<and> err2 = None)"
  using assms by (auto simp: doMount_def split: option.splits)

theorem doMount_spec_witness:
  "doMount F0 M0 ''/ipfs'' ''/missing'' =
     (M0, [''/ipfs''], Some (ClientError ''fuse failed to access mountpoint /missing'')) \<and>
   doMount F0 M0 ''/ipfs'' ''/ipns'' =
     (\<lparr>Ipfs = Some ''/ipfs'', Ipns = Some ''/ipns''\<rparr>, [], None)"
proof -
  have r: "rofs_Mount F0 ''/ipfs'' = (Some ''/ipfs'', None)"
    by (simp add: F0_def)
  have bad: "ipns_Mount F0 ''/missing'' ''/ipfs'' =
               (None, Some (PlainError ''fusermount: exit status 1''))"
    by (simp add: F0_def)
  have good: "ipns_Mount F0 ''/ipns'' ''/ipfs'' = (Some ''/ipns'', None)"
    by (simp add: F0_def)
  have e: "snd (snd (doMount F0 M0 ''/ipfs'' ''/missing'')) =
             Some (ClientError ''fuse failed to access mountpoint /missing'')"
    by (simp add: doMount_def F0_def fmtFuseErr_def fuseNoDirectory_def fuseExitStatus1_def)
  show ?thesis
    using doMount_spec [OF r bad, of M0] doMount_spec [OF r good, of M0] e
    by (simp add: M0_def prod_eq_iff)
qed

section \<open>Dial filters\<close>






section \<open>Synchronous garbage collection\<close>

lemma GarbageCollect_loop_nil:
  "GarbageCollect_loop rmed internal nD iD sched = Some None \<Longrightarrow>
   \<exists>used rest. sched = used @ rest \<and> CaseDone \<notin> set used \<and>
     (nD \<or> length rmed < count_list used CaseRmed) \<and>
     (iD \<or> length internal < count_list used CaseInternal)"
proof (induction rmed internal nD iD sched rule: GarbageCollect_loop.induct)
  case (1 rmed internal normalDone internalDone)
  then show ?case by simp
next
  case (2 rmed internal normalDone internalDone sched)
  then show ?case by simp
next
  case (3 rmed internal normalDone internalDone sched)
  show ?case
  proof (cases rmed)
    case Nil
    show ?thesis
    proof (cases internalDone)
      case True
      have "CaseRmed # sched = [CaseRmed] @ sched \<and> CaseDone \<notin> set [CaseRmed] \<and>
            (normalDone \<or> length rmed < count_list [CaseRmed] CaseRmed) \<and>
            (internalDone \<or> length internal < count_list [CaseRmed] CaseInternal)"
        using Nil True by simp
      then show ?thesis by blast
    next
      case False
      with 3 Nil obtain used rest where u: "sched = used @ rest" "CaseDone \<notin> set used"
        "length internal < count_list used CaseInternal"
        by auto
      then have "CaseRmed # sched = (CaseRmed # used) @ rest \<and>
            CaseDone \<notin> set (CaseRmed # used) \<and>
            (normalDone \<or> length rmed < count_list (CaseRmed # used) CaseRmed) \<and>
            (internalDone \<or> length internal < count_list (CaseRmed # used) CaseInternal)"
        using Nil by simp
      then show ?thesis by blast
    qed
  next
    case (Cons k rmed')
    with 3 obtain used rest where u: "sched = used @ rest" "CaseDone \<notin> set used"
      "normalDone \<or> length rmed' < count_list used CaseRmed"
      "internalDone \<or> length internal < count_list used CaseInternal"
      by auto
    then have "CaseRmed # sched = (CaseRmed # used) @ rest \<and>
          CaseDone \<notin> set (CaseRmed # used) \<and>
          (normalDone \<or> length rmed < count_list (CaseRmed # used) CaseRmed) \<and>
          (internalDone \<or> length internal < count_list (CaseRmed # used) CaseInternal)"
      using Cons by auto
    then show ?thesis by blast
  qed
next
  case (4 rmed internal normalDone internalDone sched)
  show ?case
  proof (cases internal)
    case Nil
    show ?thesis
    proof (cases normalDone)
      case True
      have "CaseInternal # sched = [CaseInternal] @ sched \<and> CaseDone \<notin> set [CaseInternal] \<and>
            (normalDone \<or> length rmed < count_list [CaseInternal] CaseRmed) \<and>
            (internalDone \<or> length internal < count_list [CaseInternal] CaseInternal)"
        using Nil True by simp
      then show ?thesis by blast
    next
      case False
      with 4 Nil obtain used rest where u: "sched = used @ rest" "CaseDone \<notin> set used"
        "length rmed < count_list used CaseRmed"
        by auto
      then have "CaseInternal # sched = (CaseInternal # used) @ rest \<and>
            CaseDone \<notin> set (CaseInternal # used) \<and>
            (normalDone \<or> length rmed < count_list (CaseInternal # used) CaseRmed) \<and>
            (internalDone \<or> length internal < count_list (CaseInternal # used) CaseInternal)"
        using Nil by simp
      then show ?thesis by blast
    qed
  next
    case (Cons k internal')
    with 4 obtain used rest where u: "sched = used @ rest" "CaseDone \<notin> set used"
      "normalDone \<or> length rmed < count_list used CaseRmed"
      "internalDone \<or> length internal' < count_list used CaseInternal"
      by auto
    then have "CaseInternal # sched = (CaseInternal # used) @ rest \<and>
          CaseDone \<notin> set (CaseInternal # used) \<and>
          (normalDone \<or> length rmed < count_list (CaseInternal # used) CaseRmed) \<and>
          (internalDone \<or> length internal < count_list (CaseInternal # used) CaseInternal)"
      using Cons by auto
    then show ?thesis by blast
  qed
qed

lemma GarbageCollect_loop_err:
  "GarbageCollect_loop rmed internal nD iD sched = Some (Some err) \<Longrightarrow>
   err = CtxErr \<and> CaseDone \<in> set sched"
  by (induction rmed internal nD iD sched rule: GarbageCollect_loop.induct)
     (auto split: list.splits if_splits)

text \<open>
  C1, as the code has it. When \<^verbatim>\<open>gc.GC\<close> fails on the data blocks, \<^verbatim>\<open>GarbageCollect\<close>
  returns that error at once and \<^verbatim>\<open>gc.GC\<close> is not called on the private blocks. When it
  succeeds on the data blocks, \<^verbatim>\<open>gc.GC\<close> is called on the private blocks, and its
  failure is returned. \<^verbatim>\<open>nil\<close> is returned only after the turns of the \<^verbatim>\<open>select\<close> have
  received every key of both channels and seen both closed, with no turn taking the
  \<^verbatim>\<open>ctx.Done()\<close> case. An error returned is the context's, after a turn took that case,
  or the failure of \<^verbatim>\<open>gc.GC\<close> on one of the two block stores.
\<close>

theorem GarbageCollect_spec:
  "(GC Blockstore = Inl e \<longrightarrow>
      GarbageCollect GC sched = ([Blockstore], Some (Some (GCFailed e)))) \<and>
   (GC Blockstore = Inr rmed \<longrightarrow> fst (GarbageCollect GC sched) = [Blockstore, PrivBlocks]) \<and>
   (GC Blockstore = Inr rmed \<and> GC PrivBlocks = Inl e \<longrightarrow>
      snd (GarbageCollect GC sched) = Some (Some (GCFailed e))) \<and>
   (snd (GarbageCollect GC sched) = Some None \<longrightarrow>
      (\<exists>rmed internal used rest.
         GC Blockstore = Inr rmed \<and> GC PrivBlocks = Inr internal \<and>
         sched = used @ rest \<and> CaseDone \<notin> set used \<and>
         length rmed < count_list used CaseRmed \<and>
         length internal < count_list used CaseInternal)) \<and>
   (snd (GarbageCollect GC sched) = Some (Some err) \<longrightarrow>
      err = CtxErr \<and> CaseDone \<in> set sched \<or>
      (\<exists>e. err = GCFailed e \<and> (GC Blockstore = Inl e \<or> GC PrivBlocks = Inl e)))"
proof -
  have nil: "\<exists>rmed internal used rest.
         GC Blockstore = Inr rmed \<and> GC PrivBlocks = Inr internal \<and>
         sched = used @ rest \<and> CaseDone \<notin> set used \<and>
         length rmed < count_list used CaseRmed \<and>
         length internal < count_list used CaseInternal"
    if r: "snd (GarbageCollect GC sched) = Some None"
  proof -
    from r obtain rmed internal where g: "GC Blockstore = Inr rmed" "GC PrivBlocks = Inr internal"
      and l: "GarbageCollect_loop rmed internal False False sched = Some None"
      by (auto simp: GarbageCollect_def split: sum.splits)
    from GarbageCollect_loop_nil [OF l] g show ?thesis by auto
  qed
  have err: "err = CtxErr \<and> CaseDone \<in> set sched \<or>
      (\<exists>e. err = GCFailed e \<and> (GC Blockstore = Inl e \<or> GC PrivBlocks = Inl e))"
    if r: "snd (GarbageCollect GC sched) = Some (Some err)"
    using r GarbageCollect_loop_err
    by (auto simp: GarbageCollect_def split: sum.splits)
  show ?thesis
    using nil err by (auto simp: GarbageCollect_def split: sum.splits)
qed

theorem GarbageCollect_spec_witness:
  "GarbageCollect GC_data_fails [CaseRmed] = ([Blockstore], Some (Some (GCFailed ''cannot list pins''))) \<and>
   GarbageCollect GC_priv_fails [CaseRmed] =
     ([Blockstore, PrivBlocks], Some (Some (GCFailed ''cannot list keys''))) \<and>
   GarbageCollect GC_ok [CaseRmed, CaseInternal, CaseRmed, CaseInternal, CaseRmed, CaseRmed] =
     ([Blockstore, PrivBlocks], Some None) \<and>
   GarbageCollect GC_ok [CaseRmed, CaseInternal, CaseDone, CaseInternal] =
     ([Blockstore, PrivBlocks], Some (Some CtxErr))"
proof -
  have g: "GC_data_fails Blockstore = Inl ''cannot list pins''"
    "GC_priv_fails Blockstore = Inr [''QmA'', ''QmB'']"
    "GC_priv_fails PrivBlocks = Inl ''cannot list keys''"
    by (simp_all add: GC_data_fails_def GC_priv_fails_def)
  have r: "snd (GarbageCollect GC_ok [CaseRmed, CaseInternal, CaseRmed, CaseInternal, CaseRmed, CaseRmed])
             = Some None"
    "snd (GarbageCollect GC_ok [CaseRmed, CaseInternal, CaseDone, CaseInternal]) = Some (Some CtxErr)"
    "fst (GarbageCollect GC_ok [CaseRmed, CaseInternal, CaseRmed, CaseInternal, CaseRmed, CaseRmed])
             = [Blockstore, PrivBlocks]"
    "fst (GarbageCollect GC_ok [CaseRmed, CaseInternal, CaseDone, CaseInternal]) = [Blockstore, PrivBlocks]"
    by (simp_all add: GarbageCollect_def GC_ok_def)
  show ?thesis
    using GarbageCollect_spec [of GC_data_fails "''cannot list pins''" "[CaseRmed]" "[]" CtxErr]
      GarbageCollect_spec [of GC_priv_fails "''cannot list keys''" "[CaseRmed]"
        "[''QmA'', ''QmB'']" CtxErr]
      GarbageCollect_spec [of GC_ok "[]"
        "[CaseRmed, CaseInternal, CaseRmed, CaseInternal, CaseRmed, CaseRmed]" "[]" CtxErr]
      GarbageCollect_spec [of GC_ok "[]" "[CaseRmed, CaseInternal, CaseDone, CaseInternal]"
        "[]" CtxErr]
      g r
    by (simp add: prod_eq_iff)
qed

text \<open>
  C1 as stated fails: a failure on the data blocks does prevent the pass over the private
  blocks from being requested.
\<close>

theorem GarbageCollect_counterexample:
  "GC_data_fails Blockstore = Inl ''cannot list pins'' \<and>
   PrivBlocks \<notin> set (fst (GarbageCollect GC_data_fails [CaseRmed, CaseInternal]))"
  by (simp add: GarbageCollect_def GC_data_fails_def)


section \<open>Asynchronous garbage collection\<close>











section \<open>Progress records\<close>

lemma sint_of_nat_64: "d < 2 ^ 63 \<Longrightarrow> sint (of_nat d :: 64 word) = int d"
proof -
  assume d: "d < 2 ^ 63"
  then have "int d < 2 ^ 63"
    by (metis of_nat_less_iff of_nat_numeral of_nat_power)
  then have "signed_take_bit 63 (int d) = int d"
    by (intro signed_take_bit_int_eq_self) simp_all
  then show ?thesis
    by (simp add: signed_of_nat)
qed

lemma threshold_test:
  assumes "mark \<le> sofar" and "sofar < 2 ^ 63"
  shows "(progressReaderIncrement \<le>s (of_nat sofar :: 64 word) - of_nat mark) =
         reaches (sofar - mark)"
proof -
  have "(of_nat sofar :: 64 word) - of_nat mark = of_nat (sofar - mark)"
    using assms(1) by simp
  moreover have "sint (of_nat (sofar - mark) :: 64 word) = int (sofar - mark)"
    using assms(2) by (intro sint_of_nat_64) simp
  moreover have "sint progressReaderIncrement = 262144"
    by (simp add: progressReaderIncrement_def)
  ultimately show ?thesis
    by (simp add: word_sle_eq reaches_def)
qed

lemma read_n_records:
  "bytes i = of_nat sofar \<Longrightarrow> lastProgress i = of_nat mark \<Longrightarrow> pr_file i = File name rs \<Longrightarrow>
   mark \<le> sofar \<Longrightarrow> sofar + sum_list (map fst rs) < 2 ^ 63 \<Longrightarrow> k \<le> length rs \<Longrightarrow>
   read_n k i = records_when reaches name sofar mark (take k rs)"
proof (induction k arbitrary: i sofar mark rs)
  case 0
  then show ?case by simp
next
  case (Suc k)
  then obtain n err rs' where rs: "rs = (n, err) # rs'"
    by (cases rs) auto
  let ?b = "of_nat (sofar + n) :: 64 word"
  have le: "mark \<le> sofar + n" and lt: "sofar + n < 2 ^ 63"
    using Suc.prems rs by simp_all
  have test: "(progressReaderIncrement \<le>s ?b - of_nat mark) = reaches (sofar + n - mark)"
    using threshold_test [OF le lt] .
  have b: "bytes i + of_nat n = ?b"
    using Suc.prems(1) by simp
  show ?case
  proof (cases "reaches (sofar + n - mark) \<or> err = Some EOF")
    case True
    let ?i' = "i\<lparr>pr_file := File name rs', bytes := ?b, lastProgress := ?b\<rparr>"
    have step: "progressReader_Read i =
                  (?i', [\<lparr>Name = name, Hash = [], Bytes = ?b\<rparr>], (n, err))"
      using True test Suc.prems(2,3) rs b
      by (auto simp: progressReader_Read_def Let_def)
    have "read_n k ?i' = records_when reaches name (sofar + n) (sofar + n) (take k rs')"
      using Suc.prems rs by (intro Suc.IH) simp_all
    with step True rs show ?thesis by simp
  next
    case False
    let ?i' = "i\<lparr>pr_file := File name rs', bytes := ?b\<rparr>"
    have step: "progressReader_Read i = (?i', [], (n, err))"
      using False test Suc.prems(2,3) rs b
      by (auto simp: progressReader_Read_def Let_def)
    have "read_n k ?i' = records_when reaches name (sofar + n) mark (take k rs')"
      using Suc.prems rs le by (intro Suc.IH) simp_all
    with step False rs show ?thesis by simp
  qed
qed

text \<open>
  C8, as the code has it. For the first \<open>k\<close> reads of a file through a new progress
  reader, together fewer than \<open>2 ^ 63\<close> bytes so that the \<^verbatim>\<open>int64\<close> counter does not wrap,
  the records sent are exactly those specified with the threshold reached (\<open>262144\<close>
  bytes or more since the last record) or the end of the stream reported; each carries
  the file name and the bytes read so far.
\<close>

theorem progress_records:
  assumes "sum_list (map fst rs) < 2 ^ 63" and "k \<le> length rs"
  shows "read_n k (fresh (File name rs)) = records_when reaches name 0 0 (take k rs)"
  using assms by (intro read_n_records) (simp_all add: fresh_def)

theorem progress_records_witness:
  "read_n 4 (fresh (File ''big.bin'' [(200000, None), (62144, None), (100, None), (0, Some EOF)])) =
     [\<lparr>Name = ''big.bin'', Hash = [], Bytes = 262144\<rparr>,
      \<lparr>Name = ''big.bin'', Hash = [], Bytes = 262244\<rparr>]"
  using progress_records [of "[(200000, None), (62144, None), (100, None), (0, Some EOF)]" 4
      "''big.bin''"]
  by (simp add: reaches_def)

text \<open>
  C8 as stated fails: a read that brings the bytes since the last record to exactly the
  threshold, without the end of the stream, sends a record, though the threshold is not
  exceeded.
\<close>

theorem progress_records_counterexample:
  "read_n 1 (fresh (File ''big.bin'' [(262144, None), (10, Some EOF)])) =
     [\<lparr>Name = ''big.bin'', Hash = [], Bytes = 262144\<rparr>] \<and>
   records_when exceeds ''big.bin'' 0 0 (take 1 [(262144, None), (10, Some EOF)]) = []"
  by (simp add: fresh_def progressReader_Read_def progressReaderIncrement_def word_sle_eq
        exceeds_def)


section \<open>The records on the output channel\<close>

lemma read_n_hash:
  "obj \<in> set (read_n k i) \<Longrightarrow> Hash obj = []"
proof (induction k arbitrary: i)
  case 0
  then show ?case by simp
next
  case (Suc k)
  then show ?case
    by (auto simp: progressReader_Read_def Let_def split: prod.splits if_splits)
qed

lemma outputDagnode_bytes:
  "outputDagnode E name dn = Inr obj \<Longrightarrow> Bytes obj = 0"
  by (auto simp: outputDagnode_def split: sum.splits)

lemma addFile_outputs:
  "Output obj \<in> set (fst (addFile E p f)) \<Longrightarrow> Hash obj = [] \<or> Bytes obj = 0"
  "Output obj \<in> set (fst (addDir E p name es)) \<Longrightarrow> Hash obj = [] \<or> Bytes obj = 0"
  "Output obj \<in> set (fst (addDir_loop E p tree es)) \<Longrightarrow> Hash obj = [] \<or> Bytes obj = 0"
proof (induction E p f and E p name es and E p tree es rule: addFile_addDir_addDir_loop.induct)
  case (1 E p name rs)
  then show ?case
    by (auto simp: Let_def dest: read_n_hash outputDagnode_bytes
             split: prod.splits sum.splits if_splits)
next
  case (2 E p name es)
  then show ?case by (simp split: if_splits)
next
  case (3 E p name es)
  then show ?case
    by (auto dest: outputDagnode_bytes split: prod.splits sum.splits option.splits)
next
  case (4 E p tree)
  then show ?case by simp
next
  case (5 E p tree e es)
  then show ?case by simp
next
  case (6 E p tree f es)
  then show ?case
    by (auto split: prod.splits sum.splits if_splits)
qed

lemma addSingleFile_outputs:
  "Output obj \<in> set (fst (addSingleFile E n req f)) \<Longrightarrow> Hash obj = [] \<or> Bytes obj = 0"
  using addFile_outputs(1) [of obj E "\<lparr>node = n, progress = progressOption req,
      hidden = hiddenOption req, trickle = trickleOption req\<rparr>" f]
  by (auto simp: addSingleFile_def addSingleFile_body_def Let_def
           split: prod.splits sum.splits option.splits if_splits)

lemma addFilesSeparately_outputs:
  "Output obj \<in> set (fst (addFilesSeparately E n req es)) \<Longrightarrow> Hash obj = [] \<or> Bytes obj = 0"
proof (induction es)
  case Nil
  then show ?case by simp
next
  case (Cons x es)
  show ?case
  proof (cases x)
    case (NextFile f)
    with Cons addSingleFile_outputs [of obj E n req f] show ?thesis
      by (auto split: prod.splits option.splits)
  next
    case (NextErr e)
    with Cons show ?thesis by simp
  qed
qed

lemma never_both_fields:
  "Output obj \<in> set (fst (Run E req)) \<Longrightarrow> \<not> (hash_set obj \<and> bytes_set obj)"
proof -
  assume "Output obj \<in> set (fst (Run E req))"
  then have "Hash obj = [] \<or> Bytes obj = 0"
    using addSingleFile_outputs [of obj E RepoNode req "Files req"]
      addSingleFile_outputs [of obj E NilRepoNode req "Files req"]
      addFilesSeparately_outputs [of obj E RepoNode req "NextFiles (Files req)"]
      addFilesSeparately_outputs [of obj E NilRepoNode req "NextFiles (Files req)"]
    by (auto simp: Run_def split: option.splits prod.splits if_splits sum.splits)
  then show ?thesis
    by (auto simp: hash_set_def bytes_set_def)
qed

lemma sum_reads_made: "sum_list (map fst (reads_made k rs)) \<le> sum_list (map fst rs)"
  by (induction k rs rule: reads_made.induct) auto

lemma read_n_reads_made:
  "bytes i = of_nat sofar \<Longrightarrow> lastProgress i = of_nat mark \<Longrightarrow> pr_file i = File name rs \<Longrightarrow>
   mark \<le> sofar \<Longrightarrow> sofar + sum_list (map fst rs) < 2 ^ 63 \<Longrightarrow>
   read_n k i = records_when reaches name sofar mark (reads_made k rs)"
proof (induction k arbitrary: i sofar mark rs)
  case 0
  then show ?case by simp
next
  case (Suc k)
  obtain n err rs' where rd: "file_Read (File name rs) = ((n, err), File name rs')"
    and made: "reads_made (Suc k) rs = (n, err) # reads_made k rs'"
    and sm: "n + sum_list (map fst rs') \<le> sum_list (map fst rs)"
    by (cases rs) auto
  let ?b = "of_nat (sofar + n) :: 64 word"
  have le: "mark \<le> sofar + n" and lt: "sofar + n < 2 ^ 63"
    and lt': "sofar + n + sum_list (map fst rs') < 2 ^ 63"
    using Suc.prems sm by simp_all
  have test: "(progressReaderIncrement \<le>s ?b - of_nat mark) = reaches (sofar + n - mark)"
    using threshold_test [OF le lt] .
  have b: "bytes i + of_nat n = ?b"
    using Suc.prems(1) by simp
  show ?case
  proof (cases "reaches (sofar + n - mark) \<or> err = Some EOF")
    case True
    let ?i' = "i\<lparr>pr_file := File name rs', bytes := ?b, lastProgress := ?b\<rparr>"
    have step: "progressReader_Read i =
                  (?i', [\<lparr>Name = name, Hash = [], Bytes = ?b\<rparr>], (n, err))"
      using True test Suc.prems(2,3) rd b
      by (auto simp: progressReader_Read_def Let_def)
    have "read_n k ?i' = records_when reaches name (sofar + n) (sofar + n) (reads_made k rs')"
      using lt' by (intro Suc.IH) simp_all
    with step True made show ?thesis by simp
  next
    case False
    let ?i' = "i\<lparr>pr_file := File name rs', bytes := ?b\<rparr>"
    have step: "progressReader_Read i = (?i', [], (n, err))"
      using False test Suc.prems(2,3) rd b
      by (auto simp: progressReader_Read_def Let_def)
    have "read_n k ?i' = records_when reaches name (sofar + n) mark (reads_made k rs')"
      using Suc.prems(2) le lt' by (intro Suc.IH) simp_all
    with step False made show ?thesis by simp
  qed
qed

lemma of_nat_64_nonzero: "0 < c \<Longrightarrow> c < 2 ^ 63 \<Longrightarrow> (of_nat c :: 64 word) \<noteq> 0"
proof
  assume c: "0 < c" "c < 2 ^ 63" and z: "(of_nat c :: 64 word) = 0"
  from sint_of_nat_64 [OF c(2)] z have "int c = 0" by simp
  with c(1) show False by simp
qed

lemma records_when_fields:
  "obj \<in> set (records_when reaches name sofar mark xs) \<Longrightarrow>
   sofar + sum_list (map fst xs) < 2 ^ 63 \<Longrightarrow>
   Name obj = name \<and> Hash obj = [] \<and> (Bytes obj \<noteq> 0 \<or> sofar = 0 \<and> eof_before_data xs)"
proof (induction xs arbitrary: sofar mark)
  case Nil
  then show ?case by simp
next
  case (Cons x xs)
  obtain n err where x: "x = (n, err)" by (cases x)
  have lt: "sofar + n < 2 ^ 63" and lt': "sofar + n + sum_list (map fst xs) < 2 ^ 63"
    using Cons.prems(2) x by simp_all
  have head: "Bytes \<lparr>Name = name, Hash = [], Bytes = of_nat (sofar + n)\<rparr> \<noteq> 0 \<or>
              sofar = 0 \<and> eof_before_data ((n, err) # xs)"
    if due: "reaches (sofar + n - mark) \<or> err = Some EOF"
  proof (cases "sofar + n = 0")
    case True
    then have "\<not> reaches (sofar + n - mark)" by (simp add: reaches_def)
    with due True show ?thesis by simp
  next
    case False
    then have "(of_nat (sofar + n) :: 64 word) \<noteq> 0"
      using lt by (intro of_nat_64_nonzero) simp_all
    then show ?thesis by simp
  qed
  have tail: "Name obj = name \<and> Hash obj = [] \<and>
              (Bytes obj \<noteq> 0 \<or> sofar = 0 \<and> eof_before_data ((n, err) # xs))"
    if "obj \<in> set (records_when reaches name (sofar + n) m xs)" for m
    using Cons.IH [OF that lt'] by auto
  from Cons.prems(1) x head tail show ?case
    by (auto split: if_splits)
qed

lemma read_n_fields:
  assumes "obj \<in> set (read_n k (fresh (File name rs)))"
    and "sum_list (map fst rs) < 2 ^ 63"
  shows "Name obj = name \<and> Hash obj = [] \<and> (Bytes obj \<noteq> 0 \<or> eof_before_data (reads_made k rs))"
proof -
  have "read_n k (fresh (File name rs)) = records_when reaches name 0 0 (reads_made k rs)"
    using assms(2) by (intro read_n_reads_made) (simp_all add: fresh_def)
  with assms(1) have "obj \<in> set (records_when reaches name 0 0 (reads_made k rs))"
    by simp
  moreover have "0 + sum_list (map fst (reads_made k rs)) < 2 ^ 63"
    using sum_reads_made [of k rs] assms(2) by simp
  ultimately show ?thesis
    using records_when_fields [of obj name 0 0 "reads_made k rs"] by simp
qed

lemma outputDagnode_record:
  assumes "outputDagnode E name dn = Inr obj"
  shows "\<exists>dn h. getOutput E dn = Inr h \<and> Hash obj = h \<and> Bytes obj = 0"
proof (cases "getOutput E dn")
  case (Inl e)
  with assms show ?thesis by (simp add: outputDagnode_def)
next
  case (Inr h)
  with assms have "Hash obj = h \<and> Bytes obj = 0"
    by (auto simp: outputDagnode_def)
  with Inr show ?thesis by blast
qed

lemma addFile_records:
  "Output obj \<in> set (fst (addFile E p f)) \<Longrightarrow>
     (\<exists>dn h. getOutput E dn = Inr h \<and> Hash obj = h \<and> Bytes obj = 0) \<or>
     progress p \<and> (\<exists>name rs k. File name rs \<in> set (plain_files f) \<and>
                      obj \<in> set (read_n k (fresh (File name rs))))"
  "Output obj \<in> set (fst (addDir E p name es)) \<Longrightarrow>
     (\<exists>dn h. getOutput E dn = Inr h \<and> Hash obj = h \<and> Bytes obj = 0) \<or>
     progress p \<and> (\<exists>name rs k. File name rs \<in> set (plain_entries es) \<and>
                      obj \<in> set (read_n k (fresh (File name rs))))"
  "Output obj \<in> set (fst (addDir_loop E p tree es)) \<Longrightarrow>
     (\<exists>dn h. getOutput E dn = Inr h \<and> Hash obj = h \<and> Bytes obj = 0) \<or>
     progress p \<and> (\<exists>name rs k. File name rs \<in> set (plain_entries es) \<and>
                      obj \<in> set (read_n k (fresh (File name rs))))"
proof (induction E p f and E p name es and E p tree es rule: addFile_addDir_addDir_loop.induct)
  case (1 E p name rs)
  obtain k r where a: "add E (node p) (File name rs) (trickle p) = (k, r)"
    by (cases "add E (node p) (File name rs) (trickle p)")
  from 1 a have "(progress p \<and> obj \<in> set (read_n k (fresh (File name rs)))) \<or>
                 (\<exists>dn. outputDagnode E name dn = Inr obj)"
    by (auto simp: Let_def split: if_splits sum.splits)
  then show ?case
  proof
    assume "progress p \<and> obj \<in> set (read_n k (fresh (File name rs)))"
    then have "progress p \<and> (\<exists>name' rs' k. File name' rs' \<in> set (plain_files (File name rs)) \<and>
                      obj \<in> set (read_n k (fresh (File name' rs'))))"
      by auto
    then show ?thesis by blast
  next
    assume "\<exists>dn. outputDagnode E name dn = Inr obj"
    then have "\<exists>dn h. getOutput E dn = Inr h \<and> Hash obj = h \<and> Bytes obj = 0"
      using outputDagnode_record by blast
    then show ?thesis by blast
  qed
next
  case (2 E p name es)
  then show ?case by (simp split: if_splits)
next
  case (3 E p name es)
  obtain ev r where l: "addDir_loop E p (Node (FolderPBData E) []) es = (ev, r)"
    by (cases "addDir_loop E p (Node (FolderPBData E) []) es")
  from 3(2) l have "Output obj \<in> set ev \<or> (\<exists>dn. outputDagnode E name dn = Inr obj)"
    by (auto split: sum.splits option.splits)
  then show ?case
  proof
    assume "Output obj \<in> set ev"
    with 3(1) l show ?thesis by simp
  next
    assume "\<exists>dn. outputDagnode E name dn = Inr obj"
    then have "\<exists>dn h. getOutput E dn = Inr h \<and> Hash obj = h \<and> Bytes obj = 0"
      using outputDagnode_record by blast
    then show ?thesis by blast
  qed
next
  case (4 E p tree)
  then show ?case by simp
next
  case (5 E p tree e es)
  then show ?case by simp
next
  case (6 E p tree f es)
  obtain ev r where af: "addFile E p f = (ev, r)"
    by (cases "addFile E p f")
  let ?P = "\<lambda>fs. (\<exists>dn h. getOutput E dn = Inr h \<and> Hash obj = h \<and> Bytes obj = 0) \<or>
                 progress p \<and> (\<exists>name rs k. File name rs \<in> set fs \<and>
                      obj \<in> set (read_n k (fresh (File name rs))))"
  have mono: "?P (plain_entries (NextFile f # es))" if "?P (plain_files f) \<or> ?P (plain_entries es)"
    using that by auto
  have here: "?P (plain_files f)" if "Output obj \<in> set ev"
    using 6(1) that af by simp
  show ?case
  proof (cases r)
    case (Inl e)
    show ?thesis
    proof (cases "isHiddenFileError e")
      case True
      have rest: "?P (plain_entries es)" if "Output obj \<in> set (fst (addDir_loop E p tree es))"
        using 6(2) [OF af [symmetric] Inl True that] .
      from 6(4) af Inl True
      have "Output obj \<in> set ev \<or> Output obj \<in> set (fst (addDir_loop E p tree es))"
        by (auto split: prod.splits)
      with here rest have "?P (plain_files f) \<or> ?P (plain_entries es)" by blast
      then show ?thesis by (rule mono)
    next
      case False
      from 6(4) af Inl False have "Output obj \<in> set ev" by simp
      with here have "?P (plain_files f) \<or> ?P (plain_entries es)" by blast
      then show ?thesis by (rule mono)
    qed
  next
    case (Inr nd)
    show ?thesis
    proof (cases "AddNodeLink E tree (snd (path_Split (FileName f))) nd")
      case (Inl msg)
      from 6(4) af \<open>r = Inr nd\<close> Inl have "Output obj \<in> set ev" by simp
      with here have "?P (plain_files f) \<or> ?P (plain_entries es)" by blast
      then show ?thesis by (rule mono)
    next
      case (Inr tree')
      have rest: "?P (plain_entries es)" if "Output obj \<in> set (fst (addDir_loop E p tree' es))"
        using 6(3) [OF af [symmetric] \<open>r = Inr nd\<close> Inr that] .
      from 6(4) af \<open>r = Inr nd\<close> Inr
      have "Output obj \<in> set ev \<or> Output obj \<in> set (fst (addDir_loop E p tree' es))"
        by (auto split: prod.splits)
      with here rest have "?P (plain_files f) \<or> ?P (plain_entries es)" by blast
      then show ?thesis by (rule mono)
    qed
  qed
qed

lemma addSingleFile_records:
  assumes "Output obj \<in> set (fst (addSingleFile E n req f))"
  shows "(\<exists>dn h. getOutput E dn = Inr h \<and> Hash obj = h \<and> Bytes obj = 0) \<or>
         progressOption req \<and> (\<exists>name rs k. File name rs \<in> set (plain_files f) \<and>
                      obj \<in> set (read_n k (fresh (File name rs))))"
proof -
  let ?p = "\<lparr>node = n, progress = progressOption req, hidden = hiddenOption req,
             trickle = trickleOption req\<rparr>"
  from assms have "Output obj \<in> set (fst (addFile E ?p f))"
    by (auto simp: addSingleFile_def addSingleFile_body_def Let_def
             split: prod.splits sum.splits option.splits if_splits)
  from addFile_records(1) [OF this] show ?thesis by simp
qed

lemma addFilesSeparately_records:
  "Output obj \<in> set (fst (addFilesSeparately E n req es)) \<Longrightarrow>
   (\<exists>dn h. getOutput E dn = Inr h \<and> Hash obj = h \<and> Bytes obj = 0) \<or>
   progressOption req \<and> (\<exists>name rs k. File name rs \<in> set (plain_entries es) \<and>
                      obj \<in> set (read_n k (fresh (File name rs))))"
proof (induction es)
  case Nil
  then show ?case by simp
next
  case (Cons x es)
  show ?case
  proof (cases x)
    case (NextErr e)
    with Cons.prems show ?thesis by simp
  next
    case (NextFile f)
    obtain ev err where s: "addSingleFile E n req f = (ev, err)"
      by (cases "addSingleFile E n req f")
    from Cons.prems NextFile s
    have "Output obj \<in> set (fst (addSingleFile E n req f)) \<or>
          Output obj \<in> set (fst (addFilesSeparately E n req es))"
      by (cases err) (auto split: prod.splits)
    then show ?thesis
    proof
      assume "Output obj \<in> set (fst (addSingleFile E n req f))"
      from addSingleFile_records [OF this] NextFile show ?thesis by auto
    next
      assume "Output obj \<in> set (fst (addFilesSeparately E n req es))"
      from Cons.IH [OF this] NextFile show ?thesis by auto
    qed
  qed
qed

lemma plain_entries_NextFiles: "set (plain_entries (NextFiles f)) \<subseteq> set (plain_files f)"
  by (cases f) simp_all

lemma Run_records:
  assumes "Output obj \<in> set (fst (Run E req))"
  shows "(\<exists>dn h. getOutput E dn = Inr h \<and> Hash obj = h \<and> Bytes obj = 0) \<or>
         progressOption req \<and> (\<exists>name rs k. File name rs \<in> set (plain_files (Files req)) \<and>
                      obj \<in> set (read_n k (fresh (File name rs))))"
proof -
  let ?n = "if onlyHashOption req then NilRepoNode else RepoNode"
  from assms have "Output obj \<in> set (fst (addSingleFile E ?n req (Files req))) \<or>
        Output obj \<in> set (fst (addFilesSeparately E ?n req (NextFiles (Files req))))"
    by (auto simp: Run_def split: option.splits sum.splits prod.splits if_splits)
  then show ?thesis
  proof
    assume "Output obj \<in> set (fst (addSingleFile E ?n req (Files req)))"
    from addSingleFile_records [OF this] show ?thesis .
  next
    assume "Output obj \<in> set (fst (addFilesSeparately E ?n req (NextFiles (Files req))))"
    from addFilesSeparately_records [OF this] plain_entries_NextFiles [of "Files req"]
    show ?thesis by blast
  qed
qed

text \<open>
  C7, as the code has it. No record sent on the output channel during a run has both
  its hash and its bytes set. When the hash \<^verbatim>\<open>getOutput\<close> computes is never empty and each
  plain file has fewer than \<open>2 ^ 63\<close> bytes, every record is of one of two kinds. A
  completion record carries the hash \<^verbatim>\<open>getOutput\<close> computed and no bytes: its hash is set,
  its bytes are not. A progress record is sent, with progress enabled, by the progress
  reader of a plain file of the request; it carries the file's name and no hash, and
  its bytes are set unless the stream has ended before any data: only then is neither
  field set.
\<close>

theorem added_object_fields:
  assumes "Output obj \<in> set (fst (Run E req))"
  shows "\<not> (hash_set obj \<and> bytes_set obj) \<and>
    ((\<forall>dn h. getOutput E dn = Inr h \<longrightarrow> h \<noteq> []) \<and>
     (\<forall>name rs. File name rs \<in> set (plain_files (Files req)) \<longrightarrow>
                 sum_list (map fst rs) < 2 ^ 63) \<longrightarrow>
       hash_set obj \<and> \<not> bytes_set obj \<and> (\<exists>dn. getOutput E dn = Inr (Hash obj)) \<or>
       \<not> hash_set obj \<and> progressOption req \<and>
       (\<exists>name rs k. File name rs \<in> set (plain_files (Files req)) \<and> Name obj = name \<and>
          obj \<in> set (read_n k (fresh (File name rs))) \<and>
          (bytes_set obj \<or> eof_before_data (reads_made k rs))))"
proof -
  have never: "\<not> (hash_set obj \<and> bytes_set obj)"
    using never_both_fields [OF assms] .
  have one: "hash_set obj \<and> \<not> bytes_set obj \<and> (\<exists>dn. getOutput E dn = Inr (Hash obj)) \<or>
       \<not> hash_set obj \<and> progressOption req \<and>
       (\<exists>name rs k. File name rs \<in> set (plain_files (Files req)) \<and> Name obj = name \<and>
          obj \<in> set (read_n k (fresh (File name rs))) \<and>
          (bytes_set obj \<or> eof_before_data (reads_made k rs)))"
    if hashes: "\<forall>dn h. getOutput E dn = Inr h \<longrightarrow> h \<noteq> []"
      and small: "\<forall>name rs. File name rs \<in> set (plain_files (Files req)) \<longrightarrow>
                 sum_list (map fst rs) < 2 ^ 63"
    using Run_records [OF assms]
  proof
    assume "\<exists>dn h. getOutput E dn = Inr h \<and> Hash obj = h \<and> Bytes obj = 0"
    then obtain dn h where c: "getOutput E dn = Inr h" "Hash obj = h" "Bytes obj = 0"
      by blast
    with hashes have "hash_set obj \<and> \<not> bytes_set obj \<and> getOutput E dn = Inr (Hash obj)"
      by (auto simp: hash_set_def bytes_set_def)
    then show ?thesis by blast
  next
    assume "progressOption req \<and> (\<exists>name rs k. File name rs \<in> set (plain_files (Files req)) \<and>
                      obj \<in> set (read_n k (fresh (File name rs))))"
    then obtain name rs k where p: "progressOption req"
      "File name rs \<in> set (plain_files (Files req))"
      "obj \<in> set (read_n k (fresh (File name rs)))"
      by blast
    from small p(2) have "sum_list (map fst rs) < 2 ^ 63" by blast
    from read_n_fields [OF p(3) this]
    have "\<not> hash_set obj \<and> Name obj = name \<and>
          (bytes_set obj \<or> eof_before_data (reads_made k rs))"
      by (auto simp: hash_set_def bytes_set_def)
    with p show ?thesis by blast
  qed
  have one': "(\<forall>dn h. getOutput E dn = Inr h \<longrightarrow> h \<noteq> []) \<and>
     (\<forall>name rs. File name rs \<in> set (plain_files (Files req)) \<longrightarrow>
                 sum_list (map fst rs) < 2 ^ 63) \<longrightarrow>
       hash_set obj \<and> \<not> bytes_set obj \<and> (\<exists>dn. getOutput E dn = Inr (Hash obj)) \<or>
       \<not> hash_set obj \<and> progressOption req \<and>
       (\<exists>name rs k. File name rs \<in> set (plain_files (Files req)) \<and> Name obj = name \<and>
          obj \<in> set (read_n k (fresh (File name rs))) \<and>
          (bytes_set obj \<or> eof_before_data (reads_made k rs)))"
    by (intro impI, elim conjE, rule one)
  from never one' show ?thesis by (rule conjI)
qed

lemma Run_req0:
  "fst (Run E0 req0) =
     [PinLock RepoNode DataBlocks, PinLock RepoNode StateBlocks,
      Import RepoNode False ''a.txt'',
      Output \<lparr>Name = ''a.txt'', Hash = [], Bytes = 300\<rparr>,
      Output \<lparr>Name = ''a.txt'', Hash = ''Qma.txt'', Bytes = 0\<rparr>,
      PinWithMode RepoNode ''Qma.txt'' Recursive, Flush RepoNode,
      Unlock RepoNode StateBlocks, Unlock RepoNode DataBlocks, CloseOut]"
  by (simp add: Run_def req0_def addSingleFile_def addSingleFile_body_def E0_eval a_txt_def)

theorem added_object_fields_witness:
  "Output \<lparr>Name = ''a.txt'', Hash = [], Bytes = 300\<rparr> \<in> set (fst (Run E0 req0)) \<and>
   \<not> hash_set \<lparr>Name = ''a.txt'', Hash = [], Bytes = 300\<rparr> \<and>
   bytes_set \<lparr>Name = ''a.txt'', Hash = [], Bytes = 300\<rparr> \<and>
   Output \<lparr>Name = ''a.txt'', Hash = ''Qma.txt'', Bytes = 0\<rparr> \<in> set (fst (Run E0 req0)) \<and>
   hash_set \<lparr>Name = ''a.txt'', Hash = ''Qma.txt'', Bytes = 0\<rparr> \<and>
   \<not> bytes_set \<lparr>Name = ''a.txt'', Hash = ''Qma.txt'', Bytes = 0\<rparr> \<and>
   getOutput E0 (Node ''a.txt'' []) = Inr ''Qma.txt'' \<and>
   eof_before_data (reads_made 2 [(0, Some EOF)])"
proof -
  have m: "Output \<lparr>Name = ''a.txt'', Hash = [], Bytes = 300\<rparr> \<in> set (fst (Run E0 req0))"
    "Output \<lparr>Name = ''a.txt'', Hash = ''Qma.txt'', Bytes = 0\<rparr> \<in> set (fst (Run E0 req0))"
    by (simp_all add: Run_req0)
  have h: "\<forall>dn h. getOutput E0 dn = Inr h \<longrightarrow> h \<noteq> []"
    "\<forall>name rs. File name rs \<in> set (plain_files (Files req0)) \<longrightarrow>
                sum_list (map fst rs) < 2 ^ 63"
    by (auto simp: E0_def req0_def a_txt_def)
  have e: "getOutput E0 (Node ''a.txt'' []) = Inr ''Qma.txt''"
    "eof_before_data (reads_made 2 [(0, Some EOF)])"
    by (simp_all add: E0_def numeral_2_eq_2)
  show ?thesis
    using added_object_fields [OF m(1)] added_object_fields [OF m(2)] m h e
    by (simp add: hash_set_def bytes_set_def)
qed

text \<open>
  C7 as stated fails: a record may have neither field set. Adding an empty file with
  progress, the read that reports the end of the stream sends a record with no hash and
  zero bytes.
\<close>

theorem added_object_fields_counterexample:
  "Output \<lparr>Name = ''empty.txt'', Hash = [], Bytes = 0\<rparr> \<in> set (fst (Run E0 req_empty)) \<and>
   \<not> hash_set \<lparr>Name = ''empty.txt'', Hash = [], Bytes = 0\<rparr> \<and>
   \<not> bytes_set \<lparr>Name = ''empty.txt'', Hash = [], Bytes = 0\<rparr>"
  by (simp add: Run_def req_empty_def req0_def addSingleFile_def addSingleFile_body_def E0_eval
        hash_set_def bytes_set_def)

end
